theory Spec2Isabelle
  imports Main "HOL-Library.Word" "HOL-Library.Multiset"
begin

section \<open>Go strings and the library functions the program calls\<close>

text \<open>
  A Go string is a sequence of bytes, which is what \<^typ>\<open>string\<close> is. The functions of
  package \<^verbatim>\<open>strings\<close> that the program calls are modelled on bytes. White space is what
  \<^verbatim>\<open>unicode.IsSpace\<close> accepts: six ASCII bytes and the UTF-8 encodings of the other
  runes of the White_Space property. No byte that starts one of these encodings is a UTF-8
  continuation byte, so looking for them byte by byte finds the same runes as decoding does.
\<close>

definition asciiSpace :: "char \<Rightarrow> bool" where
  "asciiSpace c \<longleftrightarrow>
     c = CHR 0x09 \<or> c = CHR 0x0A \<or> c = CHR 0x0B \<or> c = CHR 0x0C \<or> c = CHR 0x0D \<or> c = CHR 0x20"

definition spaceRunes :: "string list" where
  "spaceRunes =
     [[CHR 0xC2, CHR 0x85], [CHR 0xC2, CHR 0xA0],
      [CHR 0xE1, CHR 0x9A, CHR 0x80],
      [CHR 0xE2, CHR 0x80, CHR 0x80], [CHR 0xE2, CHR 0x80, CHR 0x81],
      [CHR 0xE2, CHR 0x80, CHR 0x82], [CHR 0xE2, CHR 0x80, CHR 0x83],
      [CHR 0xE2, CHR 0x80, CHR 0x84], [CHR 0xE2, CHR 0x80, CHR 0x85],
      [CHR 0xE2, CHR 0x80, CHR 0x86], [CHR 0xE2, CHR 0x80, CHR 0x87],
      [CHR 0xE2, CHR 0x80, CHR 0x88], [CHR 0xE2, CHR 0x80, CHR 0x89],
      [CHR 0xE2, CHR 0x80, CHR 0x8A],
      [CHR 0xE2, CHR 0x80, CHR 0xA8], [CHR 0xE2, CHR 0x80, CHR 0xA9],
      [CHR 0xE2, CHR 0x80, CHR 0xAF], [CHR 0xE2, CHR 0x81, CHR 0x9F],
      [CHR 0xE3, CHR 0x80, CHR 0x80]]"

text \<open>The width in bytes of the white-space rune at the start of a string, 0 if there is none.\<close>

definition spaceWidth :: "string \<Rightarrow> nat" where
  "spaceWidth s =
     (case s of
        [] \<Rightarrow> 0
      | c # _ \<Rightarrow>
          if asciiSpace c then 1
          else if take 2 s \<in> set spaceRunes then 2
          else if take 3 s \<in> set spaceRunes then 3
          else 0)"

text \<open>The same at the end of a string, given the string reversed.\<close>

definition spaceWidthRev :: "string \<Rightarrow> nat" where
  "spaceWidthRev r =
     (case r of
        [] \<Rightarrow> 0
      | c # _ \<Rightarrow>
          if asciiSpace c then 1
          else if rev (take 2 r) \<in> set spaceRunes then 2
          else if rev (take 3 r) \<in> set spaceRunes then 3
          else 0)"

function TrimLeftSpace :: "string \<Rightarrow> string" where
  "TrimLeftSpace s = (if spaceWidth s = 0 then s else TrimLeftSpace (drop (spaceWidth s) s))"
  by pat_completeness auto
termination
proof (relation "measure length")
  fix s
  assume pos: "spaceWidth s \<noteq> 0"
  then have "s \<noteq> []"
    by (auto simp: spaceWidth_def)
  with pos show "(drop (spaceWidth s) s, s) \<in> measure length"
    by simp
qed simp

function trimLeftRev :: "string \<Rightarrow> string" where
  "trimLeftRev r = (if spaceWidthRev r = 0 then r else trimLeftRev (drop (spaceWidthRev r) r))"
  by pat_completeness auto
termination
proof (relation "measure length")
  fix r
  assume pos: "spaceWidthRev r \<noteq> 0"
  then have "r \<noteq> []"
    by (auto simp: spaceWidthRev_def)
  with pos show "(drop (spaceWidthRev r) r, r) \<in> measure length"
    by simp
qed simp

declare TrimLeftSpace.simps [simp del] trimLeftRev.simps [simp del]

definition TrimRightSpace :: "string \<Rightarrow> string" where
  "TrimRightSpace s = rev (trimLeftRev (rev s))"

text \<open>\<^verbatim>\<open>strings.TrimSpace\<close>: all leading and trailing white space removed.\<close>

definition TrimSpace :: "string \<Rightarrow> string" where
  "TrimSpace s = TrimRightSpace (TrimLeftSpace s)"

text \<open>
  \<^verbatim>\<open>strings.Fields\<close>: the maximal runs of bytes that are not white space. The first
  argument is the field being read.
\<close>

function fieldsFrom :: "string \<Rightarrow> string \<Rightarrow> string list" where
  "fieldsFrom cur s =
     (if s = [] then (if cur = [] then [] else [cur])
      else if 0 < spaceWidth s
        then (if cur = [] then [] else [cur]) @ fieldsFrom [] (drop (spaceWidth s) s)
      else fieldsFrom (cur @ [hd s]) (tl s))"
  by pat_completeness auto
termination
  by (relation "measure (\<lambda>(cur, s). length s)") auto

declare fieldsFrom.simps [simp del]

definition Fields :: "string \<Rightarrow> string list" where
  "Fields s = fieldsFrom [] s"

text \<open>
  \<^verbatim>\<open>strings.Split(s, sep)\<close> for a separator of one byte: the pieces between the separators,
  one more than there are separators; a single empty piece for the empty string.
\<close>

fun splitOn :: "char \<Rightarrow> string \<Rightarrow> string list" where
  "splitOn sep [] = [[]]"
| "splitOn sep (c # cs) =
     (if c = sep then [] # splitOn sep cs
      else (case splitOn sep cs of
              [] \<Rightarrow> [[c]]
            | x # xs \<Rightarrow> (c # x) # xs))"

text \<open>\<^verbatim>\<open>strings.LastIndex(s, sep)\<close> for a separator of one byte: -1 when it does not occur.\<close>

fun LastIndexByte :: "string \<Rightarrow> char \<Rightarrow> int" where
  "LastIndexByte [] c = - 1"
| "LastIndexByte (x # xs) c =
     (let r = LastIndexByte xs c
      in if 0 \<le> r then r + 1 else if x = c then 0 else - 1)"

definition newline :: char where
  "newline = CHR 0x0A"

definition tab :: char where
  "tab = CHR 0x09"

section \<open>tmux.go: target commands and the process tree\<close>

definition isTargetCommand :: "string \<Rightarrow> bool" where
  "isTargetCommand cmd =
     (let i = LastIndexByte cmd (CHR ''/'');
          base = (if 0 \<le> i then drop (nat (i + 1)) cmd else cmd)
      in base = ''claude'' \<or> base = ''codex'')"

record psEntry =
  pid :: string
  comm :: string

type_synonym processTree = "string \<rightharpoonup> psEntry list"

text \<open>Reading \<^verbatim>\<open>tree[key]\<close>: a Go map gives the nil slice for a key it does not hold.\<close>

definition children :: "processTree \<Rightarrow> string \<Rightarrow> psEntry list" where
  "children tree key = (case tree key of None \<Rightarrow> [] | Some cs \<Rightarrow> cs)"

fun buildProcessTree_loop :: "string list \<Rightarrow> processTree \<Rightarrow> processTree" where
  "buildProcessTree_loop [] tree = tree"
| "buildProcessTree_loop (line # rest) tree =
     (let fields = Fields line
      in if length fields < 3 then buildProcessTree_loop rest tree
         else buildProcessTree_loop rest
                (tree(fields ! 1 \<mapsto>
                   children tree (fields ! 1) @ [\<lparr>pid = fields ! 0, comm = fields ! 2\<rparr>])))"

definition buildProcessTree :: "string \<Rightarrow> processTree" where
  "buildProcessTree psOutput =
     buildProcessTree_loop (splitOn newline (TrimSpace psOutput)) Map.empty"

text \<open>
  The loop of \<^verbatim>\<open>findTargetDescendant\<close> over the children still to visit. The recursion
  follows the process listing, which may hold a cycle; a search that never returns has
  the value \<open>None\<close>.
\<close>

partial_function (option) findTargetDescendant_loop ::
  "processTree \<Rightarrow> psEntry list \<Rightarrow> string option" where
  "findTargetDescendant_loop tree cs =
     (case cs of
        [] \<Rightarrow> Some ''''
      | child # rest \<Rightarrow>
          if isTargetCommand (comm child) then Some (comm child)
          else Option.bind (findTargetDescendant_loop tree (children tree (pid child)))
                 (\<lambda>found. if found \<noteq> '''' then Some found
                           else findTargetDescendant_loop tree rest))"

declare findTargetDescendant_loop.simps [code]

definition findTargetDescendant :: "processTree \<Rightarrow> string \<Rightarrow> string option" where
  "findTargetDescendant tree root = findTargetDescendant_loop tree (children tree root)"

definition findTargetChild :: "string \<Rightarrow> string \<Rightarrow> string option" where
  "findTargetChild psOutput panePID =
     Option.bind (findTargetDescendant (buildProcessTree psOutput) panePID)
       (\<lambda>found.
          if found \<noteq> '''' then
            (let i = LastIndexByte found (CHR ''/'')
             in if 0 \<le> i then Some (drop (nat (i + 1)) found) else Some found)
          else Some '''')"

section \<open>tmux.go: the pane list and the idle test\<close>

text \<open>
  A \<^verbatim>\<open>time.Time\<close> is an instant in nanoseconds on the clock of the process, a
  \<^verbatim>\<open>time.Duration\<close> a number of nanoseconds held in 64 bits. Every call of
  \<^verbatim>\<open>time.Now\<close> and of \<^verbatim>\<open>time.Since\<close> reads the clock; the reading is an argument
  of the function that makes the call.
\<close>

type_synonym time = int
type_synonym duration = int

definition minDuration :: duration where
  "minDuration = - (2 ^ 63)"

definition maxDuration :: duration where
  "maxDuration = 2 ^ 63 - 1"

text \<open>\<^verbatim>\<open>time.Since(t)\<close> at the clock reading \<open>now\<close>: the difference, saturated to a Duration.\<close>

definition since :: "time \<Rightarrow> time \<Rightarrow> duration" where
  "since now t =
     (let d = now - t
      in if maxDuration < d then maxDuration
         else if d < minDuration then minDuration
         else d)"

record paneInfo =
  ID :: string
  Command :: string
  PID :: string
  Dir :: string
  LastOutput :: string
  LastChangeAt :: time

text \<open>
  What \<^verbatim>\<open>parsePaneList\<close> has done so far: the panes appended, and the process IDs
  \<^verbatim>\<open>childLookupFn\<close> has been called with, in call order.
\<close>

record paneListing =
  panes :: "paneInfo list"
  lookups :: "string list"

text \<open>
  The loop of \<^verbatim>\<open>parsePaneList\<close> over the lines. \<open>clock k\<close> is what \<^verbatim>\<open>time.Now()\<close>
  returns at its \<open>k\<close>-th call, that is, when \<open>k\<close> panes have been appended.
\<close>

fun parsePaneList_loop ::
  "(string \<Rightarrow> string) \<Rightarrow> (nat \<Rightarrow> time) \<Rightarrow> string list \<Rightarrow> paneListing \<Rightarrow> paneListing" where
  "parsePaneList_loop childLookupFn clock [] acc = acc"
| "parsePaneList_loop childLookupFn clock (line # rest) acc =
     (if line = '''' then parsePaneList_loop childLookupFn clock rest acc
      else
        let fields = splitOn tab line
        in if length fields < 3 then parsePaneList_loop childLookupFn clock rest acc
           else
             let cmd = fields ! 1;
                 pid' = fields ! 2;
                 dir = (if 4 \<le> length fields then fields ! 3 else '''')
             in if \<not> isTargetCommand cmd then
                  (let child = childLookupFn pid';
                       acc1 = acc\<lparr>lookups := lookups acc @ [pid']\<rparr>
                   in if child \<noteq> '''' then
                        parsePaneList_loop childLookupFn clock rest
                          (acc1\<lparr>panes := panes acc1 @
                             [\<lparr>ID = fields ! 0, Command = child, PID = pid', Dir = dir,
                               LastOutput = '''', LastChangeAt = clock (length (panes acc1))\<rparr>]\<rparr>)
                      else parsePaneList_loop childLookupFn clock rest acc1)
                else
                  parsePaneList_loop childLookupFn clock rest
                    (acc\<lparr>panes := panes acc @
                       [\<lparr>ID = fields ! 0, Command = cmd, PID = pid', Dir = dir,
                         LastOutput = '''', LastChangeAt = clock (length (panes acc))\<rparr>]\<rparr>))"

definition parsePaneList :: "(string \<Rightarrow> string) \<Rightarrow> (nat \<Rightarrow> time) \<Rightarrow> string \<Rightarrow> paneListing" where
  "parsePaneList childLookupFn clock output =
     parsePaneList_loop childLookupFn clock (splitOn newline (TrimSpace output))
       \<lparr>panes = [], lookups = []\<rparr>"

definition detectIdle :: "time \<Rightarrow> paneInfo \<Rightarrow> duration \<Rightarrow> bool" where
  "detectIdle now p threshold \<longleftrightarrow> threshold \<le> since now (LastChangeAt p)"

section \<open>cmd.go: the last line of a pane's output\<close>

text \<open>
  The run-time panics of the code modelled here: an index and a slice bound out of range,
  and the panic of \<^verbatim>\<open>time.NewTicker\<close> on an interval that is not positive.
\<close>

datatype panic = IndexOutOfRange | SliceBoundsOutOfRange | NonPositiveInterval

text \<open>
  \<open>maxLen\<close> is a Go \<^verbatim>\<open>int\<close>, 64 bits wide and signed; \<^verbatim>\<open>maxLen-3\<close> wraps around. The
  slice \<^verbatim>\<open>last[:hi]\<close> panics unless \<open>0 \<le> hi \<le> len(last)\<close>.
\<close>

definition truncateLastLine :: "string \<Rightarrow> 64 word \<Rightarrow> panic + string" where
  "truncateLastLine output maxLen =
     (if output = '''' then Inr ''''
      else
        let lines = splitOn newline output
        in if lines = [] then Inl IndexOutOfRange
           else
             let lst = lines ! (length lines - 1)
             in if sint maxLen < int (length lst) then
                  (let hi = sint (maxLen - 3)
                   in if hi < 0 \<or> int (length lst) < hi then Inl SliceBoundsOutOfRange
                      else Inr (take (nat hi) lst @ ''...''))
                else Inr lst)"

section \<open>cmd.go: the scan loop of runWatch\<close>

text \<open>
  The lines the logger writes, by what they say and without the prefix and the date the
  logger puts before each: the opening line with the scan interval and the idle
  threshold, the warning with the error of the listing, the idle report with pane ID,
  command and the idle time in whole seconds, and the line on a signal.
\<close>

datatype logLine =
  LogWatching duration duration
| LogWarn string
| LogIdle string string duration
| LogShutdown string

text \<open>
  The state that lives across the ticks: the two maps keyed by pane ID, and the lines
  the logger has written.
\<close>

record watchState =
  paneOutputs :: "string \<rightharpoonup> string"
  paneLastChange :: "string \<rightharpoonup> time"
  logged :: "logLine list"

text \<open>
  What the outside world answers while one pane is handled: the result of
  \<^verbatim>\<open>capturePaneOutput\<close> for a pane ID (\<open>Inl\<close> the error), and the three readings of the
  clock, at \<^verbatim>\<open>time.Now()\<close> (line 670), in \<^verbatim>\<open>detectIdle\<close> (line 678) and in the report
  (line 681).
\<close>

record paneEnv =
  capturePaneOutput :: "string \<Rightarrow> string + string"
  nowChange :: time
  nowCheck :: time
  nowReport :: time

text \<open>\<^verbatim>\<open>d.Truncate(time.Second)\<close>: rounding toward zero to a whole number of seconds.\<close>

definition truncateSecond :: "duration \<Rightarrow> duration" where
  "truncateSecond d = d - sgn d * (\<bar>d\<bar> mod 1000000000)"

text \<open>The body of the loop over the panes (lines 662 to 682).\<close>

definition watchPane :: "duration \<Rightarrow> paneEnv \<Rightarrow> paneInfo \<Rightarrow> watchState \<Rightarrow> watchState" where
  "watchPane idleThreshold env p st =
     (case capturePaneOutput env (ID p) of
        Inl err \<Rightarrow> st
      | Inr output \<Rightarrow>
          let st1 =
                (if paneOutputs st (ID p) = None \<or> paneOutputs st (ID p) \<noteq> Some output
                 then st\<lparr>paneOutputs := (paneOutputs st)(ID p \<mapsto> output),
                         paneLastChange := (paneLastChange st)(ID p \<mapsto> nowChange env)\<rparr>
                 else st);
              p1 =
                (case paneLastChange st1 (ID p) of
                   Some lastChange \<Rightarrow> p\<lparr>LastChangeAt := lastChange, LastOutput := output\<rparr>
                 | None \<Rightarrow> p)
          in if detectIdle (nowCheck env) p1 idleThreshold
             then st1\<lparr>logged := logged st1 @
                    [LogIdle (ID p1) (Command p1)
                       (truncateSecond (since (nowReport env) (LastChangeAt p1)))]\<rparr>
             else st1)"

text \<open>The loop over the panes; \<open>envs i\<close> is the outside world while pane \<open>i\<close> is handled.\<close>

fun watchPanes ::
  "duration \<Rightarrow> (nat \<Rightarrow> paneEnv) \<Rightarrow> nat \<Rightarrow> paneInfo list \<Rightarrow> watchState \<Rightarrow> watchState" where
  "watchPanes idleThreshold envs i [] st = st"
| "watchPanes idleThreshold envs i (p # ps) st =
     watchPanes idleThreshold envs (Suc i) ps (watchPane idleThreshold (envs i) p st)"

text \<open>
  What the outside world answers during one tick: the output of \<^verbatim>\<open>tmux list-panes\<close>
  (\<open>Inl\<close> the error of the command), the process lookup, the clock of
  \<^verbatim>\<open>parsePaneList\<close>, and the answers for each pane.
\<close>

record tickEnv =
  tmuxListPanes :: "string + string"
  childLookupFn :: "string \<Rightarrow> string"
  listClock :: "nat \<Rightarrow> time"
  paneEnvs :: "nat \<Rightarrow> paneEnv"

definition listTmuxPanes :: "tickEnv \<Rightarrow> string + paneInfo list" where
  "listTmuxPanes env =
     (case tmuxListPanes env of
        Inl err \<Rightarrow> Inl (''tmux list-panes: '' @ err)
      | Inr output \<Rightarrow> Inr (panes (parsePaneList (childLookupFn env) (listClock env) output)))"

text \<open>One firing of the ticker (lines 655 to 683).\<close>

definition watchTick :: "duration \<Rightarrow> tickEnv \<Rightarrow> watchState \<Rightarrow> watchState" where
  "watchTick idleThreshold env st =
     (case listTmuxPanes env of
        Inl err \<Rightarrow> st\<lparr>logged := logged st @ [LogWarn err]\<rparr>
      | Inr ps \<Rightarrow> watchPanes idleThreshold (paneEnvs env) 0 ps st)"

text \<open>
  What the \<^verbatim>\<open>select\<close> receives: a tick, a signal, or the end of the context. The loop
  runs over the events received so far; the flag of the result says whether
  \<^verbatim>\<open>runWatch\<close> has returned.
\<close>

datatype watchEvent = ScanTick tickEnv | Signal string | CtxDone

fun runWatch_loop :: "duration \<Rightarrow> watchEvent list \<Rightarrow> watchState \<Rightarrow> watchState \<times> bool" where
  "runWatch_loop idleThreshold [] st = (st, False)"
| "runWatch_loop idleThreshold (ScanTick env # evs) st =
     runWatch_loop idleThreshold evs (watchTick idleThreshold env st)"
| "runWatch_loop idleThreshold (Signal sig # evs) st =
     (st\<lparr>logged := logged st @ [LogShutdown sig]\<rparr>, True)"
| "runWatch_loop idleThreshold (CtxDone # evs) st = (st, True)"

text \<open>
  \<^verbatim>\<open>runWatch\<close> from line 644 on, the flags parsed: both maps start empty, and
  \<^verbatim>\<open>time.NewTicker\<close> (line 647) panics on a scan interval that is not positive, before
  the opening line is logged.
\<close>

definition runWatch ::
  "duration \<Rightarrow> duration \<Rightarrow> watchEvent list \<Rightarrow> panic + watchState \<times> bool" where
  "runWatch scanInterval idleThreshold evs =
     (if scanInterval \<le> 0 then Inl NonPositiveInterval
      else Inr (runWatch_loop idleThreshold evs
                  \<lparr>paneOutputs = Map.empty, paneLastChange = Map.empty,
                   logged = [LogWatching scanInterval idleThreshold]\<rparr>))"

section \<open>Notions the properties of the scan loop are stated with\<close>

text \<open>The idle reports of the pane \<open>k\<close> among the lines logged.\<close>

definition idleReports :: "string \<Rightarrow> logLine list \<Rightarrow> logLine list" where
  "idleReports k ls = filter (\<lambda>l. case l of LogIdle i c d \<Rightarrow> i = k | _ \<Rightarrow> False) ls"

text \<open>The pane set of a tick: the IDs of the panes listed, none when listing fails.\<close>

definition paneIDs :: "tickEnv \<Rightarrow> string set" where
  "paneIDs env = (case listTmuxPanes env of Inl err \<Rightarrow> {} | Inr ps \<Rightarrow> ID ` set ps)"

text \<open>
  The value of \<^verbatim>\<open>panes[i].LastChangeAt\<close> after lines 673 to 676: the time stamp stored
  for the pane's ID, and the pane's own where none is stored.
\<close>

definition lastChangeOf :: "watchState \<Rightarrow> paneInfo \<Rightarrow> time" where
  "lastChangeOf st p = (case paneLastChange st (ID p) of Some t \<Rightarrow> t | None \<Rightarrow> LastChangeAt p)"



subsection \<open>Example inputs\<close>

text \<open>A listing of one pane, \<^verbatim>\<open>%1\<close>, running \<^verbatim>\<open>claude\<close>, and the pane it parses to.\<close>

definition onePaneListing :: string where
  "onePaneListing = ''%1'' @ [tab] @ ''claude'' @ [tab] @ ''100'' @ [newline]"

definition examplePane :: "time \<Rightarrow> paneInfo" where
  "examplePane t = \<lparr>ID = ''%1'', Command = ''claude'', PID = ''100'', Dir = '''',
     LastOutput = '''', LastChangeAt = t\<rparr>"

text \<open>
  A tick at which \<^verbatim>\<open>tmux list-panes\<close> prints \<open>listing\<close>, every capture gives \<open>out\<close>,
  the clock reads \<open>t1\<close> up to the update of the time stamp and \<open>t2\<close> from the idle
  test on.
\<close>

definition exampleTick :: "string \<Rightarrow> string \<Rightarrow> time \<Rightarrow> time \<Rightarrow> tickEnv" where
  "exampleTick listing out t1 t2 =
     \<lparr>tmuxListPanes = Inr listing, childLookupFn = (\<lambda>p. ''''), listClock = (\<lambda>k. t1),
      paneEnvs = (\<lambda>i. \<lparr>capturePaneOutput = (\<lambda>p. Inr out), nowChange = t1, nowCheck = t2,
                        nowReport = t2\<rparr>)\<rparr>"

text \<open>A tick at which \<^verbatim>\<open>tmux list-panes\<close> fails, and one at which every capture fails.\<close>

definition failingTick :: tickEnv where
  "failingTick =
     \<lparr>tmuxListPanes = Inl ''exit status 1'', childLookupFn = (\<lambda>p. ''''), listClock = (\<lambda>k. 0),
      paneEnvs = (\<lambda>i. \<lparr>capturePaneOutput = (\<lambda>p. Inl ''exit status 1''), nowChange = 0,
                        nowCheck = 0, nowReport = 0\<rparr>)\<rparr>"

definition captureFailingTick :: tickEnv where
  "captureFailingTick =
     \<lparr>tmuxListPanes = Inr onePaneListing, childLookupFn = (\<lambda>p. ''''), listClock = (\<lambda>k. 0),
      paneEnvs = (\<lambda>i. \<lparr>capturePaneOutput = (\<lambda>p. Inl ''exit status 1''), nowChange = 0,
                        nowCheck = 0, nowReport = 0\<rparr>)\<rparr>"

text \<open>
  The state before the first tick, without the opening log line, and a state in which
  the pane \<^verbatim>\<open>%1\<close> has the snapshot \<^verbatim>\<open>x\<close>, stored at time 3.
\<close>

definition initialState :: watchState where
  "initialState = \<lparr>paneOutputs = Map.empty, paneLastChange = Map.empty, logged = []\<rparr>"

definition seenState :: watchState where
  "seenState =
     \<lparr>paneOutputs = [''%1'' \<mapsto> ''x''], paneLastChange = [''%1'' \<mapsto> 3], logged = []\<rparr>"

text \<open>
  A listing of two panes, \<^verbatim>\<open>%1\<close> running \<^verbatim>\<open>claude\<close> and \<^verbatim>\<open>%2\<close> running \<^verbatim>\<open>codex\<close>, the
  second pane it parses to, and a tick with this listing at which the capture fails for
  \<^verbatim>\<open>%1\<close> and gives \<^verbatim>\<open>out\<close> for every other pane, the clock reading 7 throughout.
\<close>

definition twoAgentListing :: string where
  "twoAgentListing =
     ''%1'' @ [tab] @ ''claude'' @ [tab] @ ''100'' @ [newline] @
     ''%2'' @ [tab] @ ''codex'' @ [tab] @ ''200'' @ [newline]"

definition codexPane :: "time \<Rightarrow> paneInfo" where
  "codexPane t = \<lparr>ID = ''%2'', Command = ''codex'', PID = ''200'', Dir = '''',
     LastOutput = '''', LastChangeAt = t\<rparr>"

definition firstCaptureFailingTick :: tickEnv where
  "firstCaptureFailingTick =
     \<lparr>tmuxListPanes = Inr twoAgentListing, childLookupFn = (\<lambda>p. ''''), listClock = (\<lambda>k. 7),
      paneEnvs = (\<lambda>i. \<lparr>capturePaneOutput =
                          (\<lambda>p. if p = ''%1'' then Inl ''exit status 1'' else Inr ''out''),
                        nowChange = 7, nowCheck = 7, nowReport = 7\<rparr>)\<rparr>"

text \<open>A state in which the pane \<^verbatim>\<open>%2\<close> has the snapshot \<^verbatim>\<open>out\<close>, stored at time 1.\<close>

definition codexSeenState :: watchState where
  "codexSeenState =
     \<lparr>paneOutputs = [''%2'' \<mapsto> ''out''], paneLastChange = [''%2'' \<mapsto> 1], logged = []\<rparr>"


section \<open>Notions the properties of the pane list are stated with\<close>

text \<open>
  What one row of the listing contributes, as the specification words it: a row of fewer
  than three columns is skipped, a row of exactly three gets the empty directory; a row
  whose command names a target is included with that command, any other row with the
  name the lookup returns for its process ID, and not at all when the lookup returns
  nothing. The columns are pane ID, command, process ID and directory.
\<close>

definition paneOfRow ::
  "(string \<Rightarrow> string) \<Rightarrow> string \<Rightarrow> (string \<times> string \<times> string \<times> string) option" where
  "paneOfRow lookup row =
     (let fields = splitOn tab row
      in if length fields < 3 then None
         else
           let dir = (if length fields = 3 then '''' else fields ! 3)
           in if isTargetCommand (fields ! 1) then Some (fields ! 0, fields ! 1, fields ! 2, dir)
              else if lookup (fields ! 2) \<noteq> '''' then
                Some (fields ! 0, lookup (fields ! 2), fields ! 2, dir)
              else None)"

text \<open>The rows that need the lookup: those with a command column that names no target.\<close>

definition needsLookup :: "string \<Rightarrow> bool" where
  "needsLookup row =
     (let fields = splitOn tab row in 3 \<le> length fields \<and> \<not> isTargetCommand (fields ! 1))"

definition paneColumns :: "paneInfo \<Rightarrow> string \<times> string \<times> string \<times> string" where
  "paneColumns p = (ID p, Command p, PID p, Dir p)"

subsection \<open>Example inputs\<close>

definition twoPaneListing :: string where
  "twoPaneListing =
     ''%3'' @ [tab] @ ''claude'' @ [tab] @ ''100'' @ [tab] @ ''/a'' @ [newline] @
     ''%5'' @ [tab] @ ''node'' @ [tab] @ ''200'' @ [tab] @ ''/b'' @ [newline]"

definition threePaneListing :: string where
  "threePaneListing =
     ''%3'' @ [tab] @ ''claude'' @ [tab] @ ''100'' @ [tab] @ ''/a'' @ [newline] @
     ''%8'' @ [tab] @ ''bash'' @ [tab] @ ''300'' @ [newline] @
     ''%5'' @ [tab] @ ''node'' @ [tab] @ ''200'' @ [tab] @ ''/b'' @ [newline]"

text \<open>A lookup that finds \<^verbatim>\<open>codex\<close> below process 200 and nothing below any other.\<close>

definition codexAt200 :: "string \<Rightarrow> string" where
  "codexAt200 = (\<lambda>p. '''')(''200'' := ''codex'')"

section \<open>Notions the properties of the process tree are stated with\<close>

text \<open>The base name of a command: its last segment, after the last slash if there is one.\<close>

definition baseName :: "string \<Rightarrow> string" where
  "baseName cmd = last (splitOn (CHR ''/'') cmd)"

text \<open>
  The processes below a list of siblings: the siblings, and the children of every process
  below. The descendants of a process ID are the processes below its children.
\<close>

inductive reaches :: "processTree \<Rightarrow> psEntry list \<Rightarrow> psEntry \<Rightarrow> bool" for tree cs where
  start: "e \<in> set cs \<Longrightarrow> reaches tree cs e"
| down: "reaches tree cs e \<Longrightarrow> e' \<in> set (children tree (pid e)) \<Longrightarrow> reaches tree cs e'"

definition descendant :: "processTree \<Rightarrow> string \<Rightarrow> psEntry \<Rightarrow> bool" where
  "descendant tree root e \<longleftrightarrow> reaches tree (children tree root) e"

text \<open>The edges of a tree, from a child's process ID to its parent's.\<close>

definition treeEdges :: "processTree \<Rightarrow> (string \<times> string) set" where
  "treeEdges tree = {(pid c, p) | p c. c \<in> set (children tree p)}"

text \<open>
  The rows of a process listing, as \<^verbatim>\<open>buildProcessTree\<close> reads them: process ID, parent
  ID and command of every line with at least three fields. Their edges lead from the
  process ID of a row to its parent ID.
\<close>

fun psRows_loop :: "string list \<Rightarrow> (string \<times> string \<times> string) list" where
  "psRows_loop [] = []"
| "psRows_loop (line # rest) =
     (let fields = Fields line
      in if length fields < 3 then psRows_loop rest
         else (fields ! 0, fields ! 1, fields ! 2) # psRows_loop rest)"

definition psRows :: "string \<Rightarrow> (string \<times> string \<times> string) list" where
  "psRows psOutput = psRows_loop (splitOn newline (TrimSpace psOutput))"

definition rowEdges :: "string \<Rightarrow> (string \<times> string) set" where
  "rowEdges psOutput = set (map (\<lambda>(p, pp, c). (p, pp)) (psRows psOutput))"

text \<open>
  Depth-first order, written with an explicit stack of sibling lists yet to visit: the
  first sibling of the top list is visited, then its children are pushed, so that its
  whole subtree comes before its next sibling. \<open>dfsVisit n\<close> gives the commands of the
  first \<open>n\<close> processes visited, fewer when the traversal ends before.
\<close>

fun dfsVisit :: "nat \<Rightarrow> processTree \<Rightarrow> psEntry list list \<Rightarrow> string list" where
  "dfsVisit 0 tree stack = []"
| "dfsVisit (Suc n) tree [] = []"
| "dfsVisit (Suc n) tree ([] # stack) = dfsVisit (Suc n) tree stack"
| "dfsVisit (Suc n) tree ((c # cs) # stack) =
     comm c # dfsVisit n tree (children tree (pid c) # cs # stack)"

text \<open>
  A sibling whose subtree holds no target command: the traversal of the sibling and all
  below it ends within \<open>n\<close> visits and meets no target.
\<close>

definition targetFree :: "nat \<Rightarrow> processTree \<Rightarrow> psEntry \<Rightarrow> bool" where
  "targetFree n tree c \<longleftrightarrow>
     length (dfsVisit n tree [[c]]) < n \<and> find isTargetCommand (dfsVisit n tree [[c]]) = None"

text \<open>
  The lists of siblings got from one another by exchanging neighbours of which one has a
  subtree without target command, any number of times.
\<close>

inductive permuteFree :: "processTree \<Rightarrow> psEntry list \<Rightarrow> psEntry list \<Rightarrow> bool" for tree where
  same: "permuteFree tree cs cs"
| swap: "targetFree n tree a \<or> targetFree n tree b \<Longrightarrow>
         permuteFree tree (xs @ a # b # ys) (xs @ b # a # ys)"
| step: "permuteFree tree cs cs' \<Longrightarrow> permuteFree tree cs' cs'' \<Longrightarrow> permuteFree tree cs cs''"

text \<open>
  Two notions for the proofs: the search continued over a stack of sibling lists, and a
  sibling the loop passes over, its own command no target and the search below it empty.
\<close>

fun searchStack :: "processTree \<Rightarrow> psEntry list list \<Rightarrow> string option" where
  "searchStack tree [] = Some ''''"
| "searchStack tree (cs # stack) =
     Option.bind (findTargetDescendant_loop tree cs)
       (\<lambda>found. if found \<noteq> '''' then Some found else searchStack tree stack)"

definition passedOver :: "processTree \<Rightarrow> psEntry \<Rightarrow> bool" where
  "passedOver tree c \<longleftrightarrow>
     \<not> isTargetCommand (comm c)
     \<and> findTargetDescendant_loop tree (children tree (pid c)) = Some ''''"

subsection \<open>Example inputs\<close>

text \<open>
  A process that is its own parent; a \<^verbatim>\<open>node\<close> process with \<^verbatim>\<open>codex\<close> below it; a
  \<^verbatim>\<open>node\<close> process alone; a target command with its path.
\<close>

definition selfParentListing :: string where
  "selfParentListing = ''1 1 bash''"

definition grandchildListing :: string where
  "grandchildListing = ''42545 14460 node'' @ [newline] @ ''42546 42545 codex'' @ [newline]"

definition nodeOnlyListing :: string where
  "nodeOnlyListing = ''16174 14460 node'' @ [newline]"

definition fullPathListing :: string where
  "fullPathListing =
     ''42546 14460 /opt/homebrew/lib/node_modules/@openai/codex/codex'' @ [newline]"

text \<open>
  Two listings that differ in the order of the children of process 1, a shell with an
  editor below it and a \<^verbatim>\<open>node\<close> process with \<^verbatim>\<open>claude\<close> below it, and their trees.
\<close>

definition shellFirstListing :: string where
  "shellFirstListing =
     ''10 1 bash'' @ [newline] @ ''11 10 vim'' @ [newline] @
     ''20 1 node'' @ [newline] @ ''21 20 claude'' @ [newline]"

definition nodeFirstListing :: string where
  "nodeFirstListing =
     ''20 1 node'' @ [newline] @ ''21 20 claude'' @ [newline] @
     ''10 1 bash'' @ [newline] @ ''11 10 vim'' @ [newline]"

definition bashEntry :: psEntry where
  "bashEntry = \<lparr>pid = ''10'', comm = ''bash''\<rparr>"

definition nodeEntry :: psEntry where
  "nodeEntry = \<lparr>pid = ''20'', comm = ''node''\<rparr>"

definition shellFirstTree :: processTree where
  "shellFirstTree = buildProcessTree shellFirstListing"

definition nodeFirstTree :: processTree where
  "nodeFirstTree = buildProcessTree nodeFirstListing"

section \<open>The idle test\<close>

lemma since_exact:
  "minDuration < threshold \<Longrightarrow> threshold \<le> maxDuration \<Longrightarrow>
   threshold \<le> since now t \<longleftrightarrow> threshold \<le> now - t"
  by (auto simp: since_def Let_def)

text \<open>
  C4. \<^verbatim>\<open>detectIdle\<close> holds exactly when the time elapsed since the pane's last change,
  as \<^verbatim>\<open>time.Since\<close> measures it, is at least the threshold: a pane that changed exactly
  \<open>threshold\<close> ago is idle, one whose elapsed time is less is active. For every threshold
  but the least Duration this is the comparison of the exact difference of the two
  instants.
\<close>

theorem detectIdle_inclusive:
  "(detectIdle now p threshold \<longleftrightarrow> threshold \<le> since now (LastChangeAt p))
   \<and> (since now (LastChangeAt p) = threshold \<longrightarrow> detectIdle now p threshold)
   \<and> (since now (LastChangeAt p) < threshold \<longrightarrow> \<not> detectIdle now p threshold)
   \<and> (minDuration < threshold \<and> threshold \<le> maxDuration \<longrightarrow>
        (detectIdle now p threshold \<longleftrightarrow> threshold \<le> now - LastChangeAt p))"
  by (auto simp: detectIdle_def since_exact)

theorem detectIdle_inclusive_witness:
  "since 600000000000 (LastChangeAt \<lparr>ID = ''%1'', Command = ''claude'', PID = ''1'', Dir = '''',
       LastOutput = '''', LastChangeAt = 0\<rparr>) = 600000000000
   \<and> detectIdle 600000000000 \<lparr>ID = ''%1'', Command = ''claude'', PID = ''1'', Dir = '''',
       LastOutput = '''', LastChangeAt = 0\<rparr> 600000000000
   \<and> since 599999999999 (LastChangeAt \<lparr>ID = ''%1'', Command = ''claude'', PID = ''1'', Dir = '''',
       LastOutput = '''', LastChangeAt = 0\<rparr>) < 600000000000
   \<and> \<not> detectIdle 599999999999 \<lparr>ID = ''%1'', Command = ''claude'', PID = ''1'', Dir = '''',
       LastOutput = '''', LastChangeAt = 0\<rparr> 600000000000
   \<and> minDuration < 600000000000 \<and> 600000000000 \<le> maxDuration"
  using detectIdle_inclusive [of 600000000000 "\<lparr>ID = ''%1'', Command = ''claude'', PID = ''1'',
      Dir = '''', LastOutput = '''', LastChangeAt = 0\<rparr>" 600000000000]
    detectIdle_inclusive [of 599999999999 "\<lparr>ID = ''%1'', Command = ''claude'', PID = ''1'',
      Dir = '''', LastOutput = '''', LastChangeAt = 0\<rparr>" 600000000000]
  by (simp add: since_def minDuration_def maxDuration_def)

section \<open>The last line of a pane's output\<close>

lemma sint_sub3:
  assumes "3 \<le> sint (w :: 64 word)"
  shows "sint (w - 3) = sint w - 3"
proof -
  have "sint w < 2 ^ 63"
    using sint_lt [of w] by simp
  then have "signed_take_bit 63 (sint w - 3) = sint w - 3"
    using assms by (intro signed_take_bit_int_eq_self) auto
  then show ?thesis
    by (simp add: sint_word_ariths)
qed

lemma sint_sub3_not_small:
  assumes "sint (w :: 64 word) < 3"
  shows "sint (w - 3) < 0 \<or> 3 < sint (w - 3)"
proof (rule ccontr)
  assume "\<not> ?thesis"
  then have "sint (w - 3) = 0 \<or> sint (w - 3) = 1 \<or> sint (w - 3) = 2 \<or> sint (w - 3) = 3"
    by arith
  moreover have "w - 3 = word_of_int (sint (w - 3))"
    by simp
  ultimately have "w - 3 = 0 \<or> w - 3 = 1 \<or> w - 3 = 2 \<or> w - 3 = 3"
    by (metis word_of_int_0 word_of_int_1 word_of_int_numeral)
  then have "w = 3 \<or> w = 4 \<or> w = 5 \<or> w = 6"
    by (elim disjE) (simp_all add: algebra_simps)
  then have "3 \<le> sint w"
    by (elim disjE) simp_all
  with assms show False
    by simp
qed

lemma splitOn_nonempty: "splitOn sep s \<noteq> []"
  by (induction s) (auto split: list.splits)

text \<open>
  C10. With \<open>maxLen \<ge> 3\<close>, \<^verbatim>\<open>truncateLastLine\<close> returns for every output, and what it
  returns is no longer than \<open>maxLen\<close> or the last line, whichever is greater (indeed no
  longer than \<open>maxLen\<close>). Without it the slice panics: for every \<open>maxLen < 3\<close>, a
  single line of three bytes makes the slice bound negative or beyond the line; for
  \<open>maxLen = 2\<close> the bound is negative.
\<close>

theorem truncateLastLine_safe:
  "(3 \<le> sint maxLen \<longrightarrow>
      (\<exists>s. truncateLastLine out maxLen = Inr s
          \<and> int (length s) \<le> sint maxLen
          \<and> int (length s) \<le> max (sint maxLen) (int (length (last (splitOn newline out))))))
   \<and> (sint maxLen < 3 \<longrightarrow> truncateLastLine ''abc'' maxLen = Inl SliceBoundsOutOfRange)
   \<and> sint (2 - 3 :: 64 word) < 0
   \<and> truncateLastLine ''abc'' 2 = Inl SliceBoundsOutOfRange"
proof (intro conjI impI)
  assume ge: "3 \<le> sint maxLen"
  show "\<exists>s. truncateLastLine out maxLen = Inr s
          \<and> int (length s) \<le> sint maxLen
          \<and> int (length s) \<le> max (sint maxLen) (int (length (last (splitOn newline out))))"
    using ge splitOn_nonempty [of newline out]
    by (auto simp: truncateLastLine_def Let_def sint_sub3 last_conv_nth)
next
  assume lt: "sint maxLen < 3"
  have "splitOn newline ''abc'' = [''abc'']"
    by (simp add: newline_def)
  then show "truncateLastLine ''abc'' maxLen = Inl SliceBoundsOutOfRange"
    using lt sint_sub3_not_small [OF lt] by (auto simp: truncateLastLine_def Let_def)
next
  show "sint (2 - 3 :: 64 word) < 0"
    by simp
next
  have "splitOn newline ''abc'' = [''abc'']"
    by (simp add: newline_def)
  then show "truncateLastLine ''abc'' 2 = Inl SliceBoundsOutOfRange"
    by (simp add: truncateLastLine_def Let_def)
qed

theorem truncateLastLine_safe_witness:
  "3 \<le> sint (20 :: 64 word)
   \<and> (\<exists>s. truncateLastLine ''a very long line that exceeds the maximum length allowed here'' 20
          = Inr s \<and> int (length s) \<le> sint (20 :: 64 word))
   \<and> sint (2 :: 64 word) < 3
   \<and> truncateLastLine ''abc'' 2 = Inl SliceBoundsOutOfRange"
proof -
  have h: "3 \<le> sint (20 :: 64 word)" and h2: "sint (2 :: 64 word) < 3"
    by simp_all
  show ?thesis
    using h h2
      truncateLastLine_safe
        [of 20 "''a very long line that exceeds the maximum length allowed here''"]
      truncateLastLine_safe [of 2 "[]"]
    by blast
qed

section \<open>The scan loop\<close>

lemma tick_onePane:
  "listTmuxPanes (exampleTick onePaneListing out t1 t2) = Inr [examplePane t1]"
  by code_simp

lemma tick_noPane: "listTmuxPanes (exampleTick [] out t1 t2) = Inr []"
  by code_simp

lemma watchPane_capture_fails:
  "capturePaneOutput env (ID p) = Inl err \<Longrightarrow> watchPane th env p st = st"
  by (simp add: watchPane_def)

lemma watchPane_other:
  "k \<noteq> ID p \<Longrightarrow>
   paneOutputs (watchPane th env p st) k = paneOutputs st k
   \<and> paneLastChange (watchPane th env p st) k = paneLastChange st k
   \<and> idleReports k (logged (watchPane th env p st)) = idleReports k (logged st)"
  by (auto simp: watchPane_def Let_def idleReports_def split: sum.splits option.splits)

lemma watchPane_changed:
  "capturePaneOutput env (ID p) = Inr out \<Longrightarrow> paneOutputs st (ID p) \<noteq> Some out \<Longrightarrow>
   paneOutputs (watchPane th env p st) (ID p) = Some out
   \<and> paneLastChange (watchPane th env p st) (ID p) = Some (nowChange env)"
  by (auto simp: watchPane_def Let_def split: sum.splits option.splits)

lemma watchPane_same:
  "capturePaneOutput env (ID p) = Inr out \<Longrightarrow> paneOutputs st (ID p) = Some out \<Longrightarrow>
   paneOutputs (watchPane th env p st) = paneOutputs st
   \<and> paneLastChange (watchPane th env p st) = paneLastChange st"
  by (auto simp: watchPane_def Let_def split: sum.splits option.splits)

lemma watchPane_logged:
  "capturePaneOutput env (ID p) = Inr out \<Longrightarrow>
   logged (watchPane th env p st) =
     logged st @
       (if detectIdle (nowCheck env) (p\<lparr>LastChangeAt := lastChangeOf (watchPane th env p st) p\<rparr>) th
        then [LogIdle (ID p) (Command p)
                (truncateSecond (since (nowReport env) (lastChangeOf (watchPane th env p st) p)))]
        else [])"
  by (auto simp: watchPane_def Let_def lastChangeOf_def detectIdle_def split: sum.splits option.splits)


lemma watchPanes_append:
  "watchPanes th envs i (xs @ ys) st =
   watchPanes th envs (i + length xs) ys (watchPanes th envs i xs st)"
  by (induction xs arbitrary: i st) auto

lemma watchPanes_other:
  "k \<notin> ID ` set ps \<Longrightarrow>
   paneOutputs (watchPanes th envs i ps st) k = paneOutputs st k
   \<and> paneLastChange (watchPanes th envs i ps st) k = paneLastChange st k
   \<and> idleReports k (logged (watchPanes th envs i ps st)) = idleReports k (logged st)"
proof (induction ps arbitrary: i st)
  case Nil
  then show ?case by simp
next
  case (Cons p ps)
  then have "k \<noteq> ID p" "k \<notin> ID ` set ps" by auto
  then show ?case
    using Cons.IH [of "Suc i" "watchPane th (envs i) p st"] watchPane_other [of k p th "envs i" st]
    by simp
qed

lemma watchPanes_split:
  "watchPanes th envs 0 (xs @ p # ys) st =
   watchPanes th envs (Suc (length xs)) ys
     (watchPane th (envs (length xs)) p (watchPanes th envs 0 xs st))"
  by (simp add: watchPanes_append)

text \<open>The tick on a pane set in which the ID of \<open>p\<close> occurs once.\<close>

lemma watchPanes_once:
  assumes "ID p \<notin> ID ` set xs" "ID p \<notin> ID ` set ys"
  shows "paneOutputs (watchPanes th envs 0 (xs @ p # ys) st) (ID p)
         = paneOutputs (watchPane th (envs (length xs)) p (watchPanes th envs 0 xs st)) (ID p)"
    and "paneLastChange (watchPanes th envs 0 (xs @ p # ys) st) (ID p)
         = paneLastChange (watchPane th (envs (length xs)) p (watchPanes th envs 0 xs st)) (ID p)"
    and "idleReports (ID p) (logged (watchPanes th envs 0 (xs @ p # ys) st))
         = idleReports (ID p)
             (logged (watchPane th (envs (length xs)) p (watchPanes th envs 0 xs st)))"
    and "paneOutputs (watchPanes th envs 0 xs st) (ID p) = paneOutputs st (ID p)"
    and "paneLastChange (watchPanes th envs 0 xs st) (ID p) = paneLastChange st (ID p)"
    and "idleReports (ID p) (logged (watchPanes th envs 0 xs st)) = idleReports (ID p) (logged st)"
  using watchPanes_other [OF assms(2), of th envs "Suc (length xs)"
      "watchPane th (envs (length xs)) p (watchPanes th envs 0 xs st)"]
    watchPanes_other [OF assms(1), of th envs 0 st]
  by (simp_all add: watchPanes_split)

lemma watchTick_listed:
  "listTmuxPanes env = Inr ps \<Longrightarrow> watchTick th env st = watchPanes th (paneEnvs env) 0 ps st"
  by (simp add: watchTick_def)

text \<open>
  C5. When the capture of a pane's output succeeds and no snapshot is stored for the
  pane's ID, or the stored one differs from the captured output, the snapshot and the
  time stamp stored for the ID become the captured output and the clock reading of this
  tick (line 670); when the stored snapshot is the captured output, both maps stay as
  they are. This holds of the loop body, whatever the state it meets, and of the whole
  tick for a pane whose ID occurs once in the pane set.
\<close>

theorem watchTick_change_tracking:
  "(capturePaneOutput penv (ID p) = Inr out \<longrightarrow>
      (paneOutputs st (ID p) = None \<or> (\<exists>prev. paneOutputs st (ID p) = Some prev \<and> prev \<noteq> out) \<longrightarrow>
         paneOutputs (watchPane th penv p st) (ID p) = Some out
         \<and> paneLastChange (watchPane th penv p st) (ID p) = Some (nowChange penv))
      \<and> (paneOutputs st (ID p) = Some out \<longrightarrow>
           paneOutputs (watchPane th penv p st) = paneOutputs st
           \<and> paneLastChange (watchPane th penv p st) = paneLastChange st))
   \<and> (listTmuxPanes env = Inr (xs @ p # ys) \<and> ID p \<notin> ID ` set xs \<and> ID p \<notin> ID ` set ys
        \<and> capturePaneOutput (paneEnvs env (length xs)) (ID p) = Inr out \<longrightarrow>
      (paneOutputs st (ID p) = None \<or> (\<exists>prev. paneOutputs st (ID p) = Some prev \<and> prev \<noteq> out) \<longrightarrow>
         paneOutputs (watchTick th env st) (ID p) = Some out
         \<and> paneLastChange (watchTick th env st) (ID p) = Some (nowChange (paneEnvs env (length xs))))
      \<and> (paneOutputs st (ID p) = Some out \<longrightarrow>
           paneOutputs (watchTick th env st) (ID p) = paneOutputs st (ID p)
           \<and> paneLastChange (watchTick th env st) (ID p) = paneLastChange st (ID p)))"
proof (intro conjI impI)
  assume "capturePaneOutput penv (ID p) = Inr out"
    and "paneOutputs st (ID p) = None \<or> (\<exists>prev. paneOutputs st (ID p) = Some prev \<and> prev \<noteq> out)"
  then show "paneOutputs (watchPane th penv p st) (ID p) = Some out"
    and "paneLastChange (watchPane th penv p st) (ID p) = Some (nowChange penv)"
    using watchPane_changed [of penv p out st th] by auto
next
  assume "capturePaneOutput penv (ID p) = Inr out" and "paneOutputs st (ID p) = Some out"
  then show "paneOutputs (watchPane th penv p st) = paneOutputs st"
    and "paneLastChange (watchPane th penv p st) = paneLastChange st"
    using watchPane_same [of penv p out st th] by auto
next
  assume a: "listTmuxPanes env = Inr (xs @ p # ys) \<and> ID p \<notin> ID ` set xs \<and> ID p \<notin> ID ` set ys
        \<and> capturePaneOutput (paneEnvs env (length xs)) (ID p) = Inr out"
  let ?st1 = "watchPanes th (paneEnvs env) 0 xs st"
  note once = watchPanes_once [of p xs ys th "paneEnvs env" st]
  have tick: "watchTick th env st = watchPanes th (paneEnvs env) 0 (xs @ p # ys) st"
    using a by (simp add: watchTick_listed)
  {
    assume "paneOutputs st (ID p) = None \<or> (\<exists>prev. paneOutputs st (ID p) = Some prev \<and> prev \<noteq> out)"
    then have "paneOutputs ?st1 (ID p) \<noteq> Some out"
      using a once(4) by auto
    then show "paneOutputs (watchTick th env st) (ID p) = Some out"
      and "paneLastChange (watchTick th env st) (ID p) = Some (nowChange (paneEnvs env (length xs)))"
      using a once(1,2) watchPane_changed [of "paneEnvs env (length xs)" p out ?st1 th]
      by (simp_all add: tick)
  }
  {
    assume "paneOutputs st (ID p) = Some out"
    then have "paneOutputs ?st1 (ID p) = Some out"
      using a once(4) by auto
    then show "paneOutputs (watchTick th env st) (ID p) = paneOutputs st (ID p)"
      and "paneLastChange (watchTick th env st) (ID p) = paneLastChange st (ID p)"
      using a once watchPane_same [of "paneEnvs env (length xs)" p out ?st1 th]
      by (simp_all add: tick)
  }
qed

theorem watchTick_change_tracking_witness:
  "listTmuxPanes (exampleTick onePaneListing ''x'' 10 10) = Inr ([] @ examplePane 10 # [])
   \<and> capturePaneOutput (paneEnvs (exampleTick onePaneListing ''x'' 10 10) 0) ''%1'' = Inr ''x''
   \<and> paneOutputs initialState ''%1'' = None
   \<and> paneOutputs (watchTick 5 (exampleTick onePaneListing ''x'' 10 10) initialState) ''%1''
       = Some ''x''
   \<and> paneLastChange (watchTick 5 (exampleTick onePaneListing ''x'' 10 10) initialState) ''%1''
       = Some 10
   \<and> paneOutputs seenState ''%1'' = Some ''x''
   \<and> paneLastChange seenState ''%1'' = Some 3
   \<and> paneLastChange (watchTick 5 (exampleTick onePaneListing ''x'' 10 10) seenState) ''%1''
       = Some 3
   \<and> capturePaneOutput (paneEnvs (exampleTick onePaneListing ''y'' 10 10) 0) ''%1'' = Inr ''y''
   \<and> ''x'' \<noteq> ''y''
   \<and> paneOutputs (watchTick 5 (exampleTick onePaneListing ''y'' 10 10) seenState) ''%1''
       = Some ''y''
   \<and> paneLastChange (watchTick 5 (exampleTick onePaneListing ''y'' 10 10) seenState) ''%1''
       = Some 10
   \<and> paneLastChange
        (watchPane 5 (paneEnvs (exampleTick onePaneListing ''y'' 10 10) 0) (examplePane 10)
           seenState) ''%1'' = Some 10"
proof -
  let ?x = "exampleTick onePaneListing ''x'' 10 10"
  let ?y = "exampleTick onePaneListing ''y'' 10 10"
  have l: "listTmuxPanes (exampleTick onePaneListing out 10 10) = Inr ([] @ examplePane 10 # [])"
    for out
    by (simp add: tick_onePane)
  have i: "ID (examplePane 10) = ''%1''"
    by (simp add: examplePane_def)
  have c: "capturePaneOutput (paneEnvs (exampleTick onePaneListing out 10 10) n) ''%1'' = Inr out"
    and t: "nowChange (paneEnvs (exampleTick onePaneListing out 10 10) n) = 10" for out n
    by (simp_all add: exampleTick_def)
  have n: "paneOutputs initialState ''%1'' = None"
    by (simp add: initialState_def)
  have s: "paneOutputs seenState ''%1'' = Some ''x''" "paneLastChange seenState ''%1'' = Some 3"
    by (simp_all add: seenState_def)
  note X = watchTick_change_tracking
    [of "paneEnvs ?x 0" "examplePane 10" "''x''" _ 5 ?x "[]" "[]", unfolded i]
  note Y = watchTick_change_tracking
    [of "paneEnvs ?y 0" "examplePane 10" "''y''" _ 5 ?y "[]" "[]", unfolded i]
  have "paneOutputs (watchTick 5 ?x initialState) ''%1'' = Some ''x''
      \<and> paneLastChange (watchTick 5 ?x initialState) ''%1'' = Some 10"
    using X [of initialState] l c t n by simp
  moreover have "paneLastChange (watchTick 5 ?x seenState) ''%1'' = Some 3"
    using X [of seenState] l c t s by simp
  moreover have "paneOutputs (watchTick 5 ?y seenState) ''%1'' = Some ''y''
      \<and> paneLastChange (watchTick 5 ?y seenState) ''%1'' = Some 10"
    using Y [of seenState] l c t s by simp
  moreover have "paneLastChange (watchPane 5 (paneEnvs ?y 0) (examplePane 10) seenState) ''%1''
      = Some 10"
    using Y [of seenState] c t s by simp
  ultimately show ?thesis
    using l [of "''x''"] c n s by simp
qed

text \<open>The tick after a pane whose capture fails, up to a pane \<open>q\<close> listed later.\<close>

lemma watchPanes_after_failure:
  assumes "capturePaneOutput (envs (length xs)) (ID p) = Inl err"
  shows "watchPanes th envs 0 (xs @ p # ys @ q # zs) st =
         watchPanes th envs (Suc (Suc (length xs + length ys))) zs
           (watchPane th (envs (Suc (length xs + length ys))) q
              (watchPanes th envs (Suc (length xs)) ys (watchPanes th envs 0 xs st)))"
  using assms by (simp add: watchPanes_append watchPane_capture_fails)

text \<open>
  C6. When listing the panes fails, the tick logs a warning, leaves both maps as they
  are, and the loop goes on with the next event. When the capture fails for one pane,
  the loop body leaves the state as it is (no update, no idle report) and the loop over
  the panes goes on: the tick does what it would do without that pane, and a pane listed
  after it, its ID in one row of the pane set and its capture succeeding, has its snapshot
  and time stamp updated and is reported if it is idle, as on any other tick. No tick
  makes \<^verbatim>\<open>runWatch\<close> return.
\<close>

theorem watchTick_failures:
  "(tmuxListPanes env = Inl err \<longrightarrow>
      paneOutputs (watchTick th env st) = paneOutputs st
      \<and> paneLastChange (watchTick th env st) = paneLastChange st
      \<and> logged (watchTick th env st) = logged st @ [LogWarn (''tmux list-panes: '' @ err)]
      \<and> runWatch_loop th (ScanTick env # evs) st =
          runWatch_loop th evs (st\<lparr>logged := logged st @ [LogWarn (''tmux list-panes: '' @ err)]\<rparr>))
   \<and> (capturePaneOutput (envs i) (ID p) = Inl err \<longrightarrow>
        watchPane th (envs i) p st = st
        \<and> watchPanes th envs i (p # ps) st = watchPanes th envs (Suc i) ps st)
   \<and> (listTmuxPanes env = Inr (xs @ p # ys)
        \<and> capturePaneOutput (paneEnvs env (length xs)) (ID p) = Inl err \<longrightarrow>
        watchTick th env st =
          watchPanes th (paneEnvs env) (Suc (length xs)) ys (watchPanes th (paneEnvs env) 0 xs st))
   \<and> (listTmuxPanes env = Inr (xs @ p # ys @ q # zs)
        \<and> capturePaneOutput (paneEnvs env (length xs)) (ID p) = Inl err
        \<and> ID q \<notin> ID ` set xs \<and> ID q \<notin> ID ` set ys \<and> ID q \<notin> ID ` set zs
        \<and> capturePaneOutput (paneEnvs env (Suc (length xs + length ys))) (ID q) = Inr out \<longrightarrow>
        (paneOutputs st (ID q) \<noteq> Some out \<longrightarrow>
           paneOutputs (watchTick th env st) (ID q) = Some out
           \<and> paneLastChange (watchTick th env st) (ID q)
               = Some (nowChange (paneEnvs env (Suc (length xs + length ys)))))
        \<and> (paneOutputs st (ID q) = Some out \<longrightarrow>
             paneOutputs (watchTick th env st) (ID q) = Some out
             \<and> paneLastChange (watchTick th env st) (ID q) = paneLastChange st (ID q))
        \<and> idleReports (ID q) (logged (watchTick th env st)) =
            idleReports (ID q) (logged st) @
              (if detectIdle (nowCheck (paneEnvs env (Suc (length xs + length ys))))
                    (q\<lparr>LastChangeAt := lastChangeOf (watchTick th env st) q\<rparr>) th
               then [LogIdle (ID q) (Command q)
                       (truncateSecond
                          (since (nowReport (paneEnvs env (Suc (length xs + length ys))))
                             (lastChangeOf (watchTick th env st) q)))]
               else []))
   \<and> runWatch_loop th (ScanTick env # evs) st = runWatch_loop th evs (watchTick th env st)
   \<and> \<not> snd (runWatch_loop th [ScanTick env] st)"
proof -
  have listing: "paneOutputs (watchTick th env st) = paneOutputs st
      \<and> paneLastChange (watchTick th env st) = paneLastChange st
      \<and> logged (watchTick th env st) = logged st @ [LogWarn (''tmux list-panes: '' @ err)]
      \<and> runWatch_loop th (ScanTick env # evs) st =
          runWatch_loop th evs (st\<lparr>logged := logged st @ [LogWarn (''tmux list-panes: '' @ err)]\<rparr>)"
    if "tmuxListPanes env = Inl err"
  proof -
    from that have "watchTick th env st
        = st\<lparr>logged := logged st @ [LogWarn (''tmux list-panes: '' @ err)]\<rparr>"
      by (simp add: watchTick_def listTmuxPanes_def)
    then show ?thesis
      by simp
  qed
  have body: "watchPane th (envs i) p st = st
      \<and> watchPanes th envs i (p # ps) st = watchPanes th envs (Suc i) ps st"
    if "capturePaneOutput (envs i) (ID p) = Inl err"
    using that by (simp add: watchPane_capture_fails)
  have without: "watchTick th env st =
      watchPanes th (paneEnvs env) (Suc (length xs)) ys (watchPanes th (paneEnvs env) 0 xs st)"
    if "listTmuxPanes env = Inr (xs @ p # ys)
        \<and> capturePaneOutput (paneEnvs env (length xs)) (ID p) = Inl err"
    using that by (simp add: watchTick_listed watchPanes_split watchPane_capture_fails)
  have later: "(paneOutputs st (ID q) \<noteq> Some out \<longrightarrow>
           paneOutputs (watchTick th env st) (ID q) = Some out
           \<and> paneLastChange (watchTick th env st) (ID q)
               = Some (nowChange (paneEnvs env (Suc (length xs + length ys)))))
        \<and> (paneOutputs st (ID q) = Some out \<longrightarrow>
             paneOutputs (watchTick th env st) (ID q) = Some out
             \<and> paneLastChange (watchTick th env st) (ID q) = paneLastChange st (ID q))
        \<and> idleReports (ID q) (logged (watchTick th env st)) =
            idleReports (ID q) (logged st) @
              (if detectIdle (nowCheck (paneEnvs env (Suc (length xs + length ys))))
                    (q\<lparr>LastChangeAt := lastChangeOf (watchTick th env st) q\<rparr>) th
               then [LogIdle (ID q) (Command q)
                       (truncateSecond
                          (since (nowReport (paneEnvs env (Suc (length xs + length ys))))
                             (lastChangeOf (watchTick th env st) q)))]
               else [])"
    if a: "listTmuxPanes env = Inr (xs @ p # ys @ q # zs)
        \<and> capturePaneOutput (paneEnvs env (length xs)) (ID p) = Inl err
        \<and> ID q \<notin> ID ` set xs \<and> ID q \<notin> ID ` set ys \<and> ID q \<notin> ID ` set zs
        \<and> capturePaneOutput (paneEnvs env (Suc (length xs + length ys))) (ID q) = Inr out"
  proof -
    let ?envs = "paneEnvs env"
    let ?penv = "?envs (Suc (length xs + length ys))"
    let ?st1 = "watchPanes th ?envs 0 xs st"
    let ?st2 = "watchPanes th ?envs (Suc (length xs)) ys ?st1"
    let ?st3 = "watchPane th ?penv q ?st2"
    have cap: "capturePaneOutput ?penv (ID q) = Inr out"
      using a by simp
    have tick: "watchTick th env st = watchPanes th ?envs (Suc (Suc (length xs + length ys))) zs ?st3"
      using a watchPanes_after_failure [of ?envs xs p err th ys q zs st]
      by (simp add: watchTick_listed)
    have before: "paneOutputs ?st2 (ID q) = paneOutputs st (ID q)"
      "paneLastChange ?st2 (ID q) = paneLastChange st (ID q)"
      "idleReports (ID q) (logged ?st2) = idleReports (ID q) (logged st)"
      using a watchPanes_other [of "ID q" xs th ?envs 0 st]
        watchPanes_other [of "ID q" ys th ?envs "Suc (length xs)" ?st1]
      by simp_all
    have after: "paneOutputs (watchTick th env st) (ID q) = paneOutputs ?st3 (ID q)"
      "paneLastChange (watchTick th env st) (ID q) = paneLastChange ?st3 (ID q)"
      "idleReports (ID q) (logged (watchTick th env st)) = idleReports (ID q) (logged ?st3)"
      using a watchPanes_other [of "ID q" zs th ?envs "Suc (Suc (length xs + length ys))" ?st3]
      by (simp_all add: tick)
    have lc: "lastChangeOf (watchTick th env st) q = lastChangeOf ?st3 q"
      using after(2) by (simp add: lastChangeOf_def)
    have changed: "paneOutputs (watchTick th env st) (ID q) = Some out
        \<and> paneLastChange (watchTick th env st) (ID q) = Some (nowChange ?penv)"
      if "paneOutputs st (ID q) \<noteq> Some out"
      using that before(1) after(1,2) watchPane_changed [OF cap, of ?st2 th] by simp
    have same: "paneOutputs (watchTick th env st) (ID q) = Some out
        \<and> paneLastChange (watchTick th env st) (ID q) = paneLastChange st (ID q)"
      if "paneOutputs st (ID q) = Some out"
      using that before(1,2) after(1,2) watchPane_same [OF cap, of ?st2 th] by simp
    have "idleReports (ID q) (logged (watchTick th env st)) =
        idleReports (ID q) (logged st) @
          (if detectIdle (nowCheck ?penv) (q\<lparr>LastChangeAt := lastChangeOf ?st3 q\<rparr>) th
           then [LogIdle (ID q) (Command q)
                   (truncateSecond (since (nowReport ?penv) (lastChangeOf ?st3 q)))]
           else [])"
      using before(3) after(3) watchPane_logged [OF cap, of th ?st2]
      by (simp add: idleReports_def)
    then show ?thesis
      using changed same by (simp add: lc)
  qed
  have next_event: "runWatch_loop th (ScanTick env # evs) st = runWatch_loop th evs (watchTick th env st)"
    by simp
  have no_return: "\<not> snd (runWatch_loop th [ScanTick env] st)"
    by simp
  show ?thesis
    using listing body without later next_event no_return by blast
qed

theorem watchTick_failures_witness:
  "tmuxListPanes failingTick = Inl ''exit status 1''
   \<and> paneOutputs (watchTick 5 failingTick seenState) = paneOutputs seenState
   \<and> paneLastChange (watchTick 5 failingTick seenState) = paneLastChange seenState
   \<and> logged (watchTick 5 failingTick seenState) = [LogWarn ''tmux list-panes: exit status 1'']
   \<and> listTmuxPanes captureFailingTick = Inr ([] @ examplePane 0 # [])
   \<and> capturePaneOutput (paneEnvs captureFailingTick 0) (ID (examplePane 0)) = Inl ''exit status 1''
   \<and> watchPanes 5 (paneEnvs captureFailingTick) 0 [examplePane 0] seenState = seenState
   \<and> watchTick 5 captureFailingTick seenState = seenState
   \<and> listTmuxPanes firstCaptureFailingTick = Inr ([] @ examplePane 7 # [] @ codexPane 7 # [])
   \<and> capturePaneOutput (paneEnvs firstCaptureFailingTick 0) (ID (examplePane 7))
       = Inl ''exit status 1''
   \<and> capturePaneOutput (paneEnvs firstCaptureFailingTick 1) (ID (codexPane 7)) = Inr ''out''
   \<and> paneOutputs (watchTick 5 firstCaptureFailingTick initialState) ''%1'' = None
   \<and> paneOutputs (watchTick 5 firstCaptureFailingTick initialState) ''%2'' = Some ''out''
   \<and> paneLastChange (watchTick 5 firstCaptureFailingTick initialState) ''%2'' = Some 7
   \<and> idleReports ''%2'' (logged (watchTick 5 firstCaptureFailingTick initialState)) = []
   \<and> paneLastChange (watchTick 5 firstCaptureFailingTick codexSeenState) ''%2'' = Some 1
   \<and> idleReports ''%2'' (logged (watchTick 5 firstCaptureFailingTick codexSeenState))
       = [LogIdle ''%2'' ''codex'' 0]"
proof -
  have a: "tmuxListPanes failingTick = Inl ''exit status 1''"
    and c: "capturePaneOutput (paneEnvs captureFailingTick 0) (ID (examplePane 0))
            = Inl ''exit status 1''"
    by (simp_all add: failingTick_def captureFailingTick_def)
  have l: "logged seenState = []"
    by (simp add: seenState_def)
  have t: "listTmuxPanes captureFailingTick = Inr ([] @ examplePane 0 # [])"
    by code_simp
  have one: "paneOutputs (watchTick 5 failingTick seenState) = paneOutputs seenState
      \<and> paneLastChange (watchTick 5 failingTick seenState) = paneLastChange seenState
      \<and> logged (watchTick 5 failingTick seenState) = [LogWarn ''tmux list-panes: exit status 1'']
      \<and> watchPanes 5 (paneEnvs captureFailingTick) 0 [examplePane 0] seenState = seenState
      \<and> watchTick 5 captureFailingTick seenState = seenState"
    using watchTick_failures
        [of failingTick "''exit status 1''" 5 seenState "[]" "paneEnvs captureFailingTick" 0
          "examplePane 0" "[]" "[]" "[]"]
      watchTick_failures
        [of captureFailingTick "''exit status 1''" 5 seenState "[]" "paneEnvs captureFailingTick" 0
          "examplePane 0" "[]" "[]" "[]"]
      a c l t
    by simp
  let ?env = firstCaptureFailingTick
  have t2: "listTmuxPanes ?env = Inr ([] @ examplePane 7 # [] @ codexPane 7 # [])"
    by code_simp
  have i: "ID (examplePane 7) = ''%1''" "ID (codexPane 7) = ''%2''" "Command (codexPane 7) = ''codex''"
    by (simp_all add: examplePane_def codexPane_def)
  have c2: "capturePaneOutput (paneEnvs ?env 0) (ID (examplePane 7)) = Inl ''exit status 1''"
    "capturePaneOutput (paneEnvs ?env 1) (ID (codexPane 7)) = Inr ''out''"
    by (simp_all add: firstCaptureFailingTick_def i)
  have n: "nowChange (paneEnvs ?env k) = 7" "nowCheck (paneEnvs ?env k) = 7"
    "nowReport (paneEnvs ?env k) = 7" for k
    by (simp_all add: firstCaptureFailingTick_def)
  have h: "listTmuxPanes ?env = Inr ([] @ examplePane 7 # [] @ codexPane 7 # [])
      \<and> capturePaneOutput (paneEnvs ?env (length ([] :: paneInfo list))) (ID (examplePane 7))
          = Inl ''exit status 1''
      \<and> ID (codexPane 7) \<notin> ID ` set [] \<and> ID (codexPane 7) \<notin> ID ` set []
      \<and> ID (codexPane 7) \<notin> ID ` set []
      \<and> capturePaneOutput
          (paneEnvs ?env (Suc (length ([] :: paneInfo list) + length ([] :: paneInfo list))))
          (ID (codexPane 7)) = Inr ''out''"
    using t2 c2 by simp
  have s: "paneOutputs initialState ''%2'' \<noteq> Some ''out''" "logged initialState = []"
    "paneOutputs codexSeenState ''%2'' = Some ''out''"
    "paneLastChange codexSeenState ''%2'' = Some 1" "logged codexSeenState = []"
    by (simp_all add: initialState_def codexSeenState_def)
  have d: "\<not> detectIdle 7 ((codexPane 7)\<lparr>LastChangeAt := 7\<rparr>) 5"
    "detectIdle 7 ((codexPane 7)\<lparr>LastChangeAt := 1\<rparr>) 5"
    "truncateSecond (since 7 1) = 0"
    by code_simp+
  have untouched: "paneOutputs (watchTick 5 ?env initialState) ''%1'' = None"
    by code_simp
  note fresh = watchTick_failures
    [where env = ?env and err = "''exit status 1''" and th = 5 and st = initialState
       and xs = "[]" and p = "examplePane 7" and ys = "[]" and q = "codexPane 7" and zs = "[]"
       and out = "''out''",
      THEN conjunct2, THEN conjunct2, THEN conjunct2, THEN conjunct1, THEN mp, OF h]
  note seen = watchTick_failures
    [where env = ?env and err = "''exit status 1''" and th = 5 and st = codexSeenState
       and xs = "[]" and p = "examplePane 7" and ys = "[]" and q = "codexPane 7" and zs = "[]"
       and out = "''out''",
      THEN conjunct2, THEN conjunct2, THEN conjunct2, THEN conjunct1, THEN mp, OF h]
  have f1: "paneOutputs (watchTick 5 ?env initialState) ''%2'' = Some ''out''
      \<and> paneLastChange (watchTick 5 ?env initialState) ''%2'' = Some 7"
    using fresh [THEN conjunct1] s(1) by (simp add: i n)
  have f2: "idleReports ''%2'' (logged (watchTick 5 ?env initialState)) = []"
    using fresh [THEN conjunct2, THEN conjunct2] f1 d(1)
    by (simp add: i n s lastChangeOf_def idleReports_def)
  have g1: "paneLastChange (watchTick 5 ?env codexSeenState) ''%2'' = Some 1"
    using seen [THEN conjunct2, THEN conjunct1] s(3,4) by (simp add: i)
  have g2: "idleReports ''%2'' (logged (watchTick 5 ?env codexSeenState))
      = [LogIdle ''%2'' ''codex'' 0]"
    using seen [THEN conjunct2, THEN conjunct2] g1 d(2,3)
    by (simp add: i n s lastChangeOf_def idleReports_def)
  show ?thesis
    using one a c t t2 c2 untouched f1 f2 g1 g2 by simp
qed

subsection \<open>Idle reports\<close>

lemma idleReports_append [simp]:
  "idleReports k (xs @ ys) = idleReports k xs @ idleReports k ys"
  by (simp add: idleReports_def)








subsection \<open>A pane that disappears and comes back\<close>

lemma watchTick_absent:
  assumes "k \<notin> paneIDs env"
  shows "paneOutputs (watchTick th env st) k = paneOutputs st k
         \<and> paneLastChange (watchTick th env st) k = paneLastChange st k"
proof (cases "listTmuxPanes env")
  case (Inl err)
  then show ?thesis
    by (simp add: watchTick_def)
next
  case (Inr ps)
  with assms have "k \<notin> ID ` set ps"
    by (simp add: paneIDs_def)
  then show ?thesis
    using Inr watchPanes_other [of k ps th "paneEnvs env" 0 st] by (simp add: watchTick_listed)
qed

lemma runWatch_loop_ticks_append:
  "runWatch_loop th (map ScanTick envs @ evs) st =
   runWatch_loop th evs (fst (runWatch_loop th (map ScanTick envs) st))"
  by (induction envs arbitrary: st) auto

lemma runWatch_loop_absent:
  "\<forall>e \<in> set envs. k \<notin> paneIDs e \<Longrightarrow>
   paneOutputs (fst (runWatch_loop th (map ScanTick envs) st)) k = paneOutputs st k
   \<and> paneLastChange (fst (runWatch_loop th (map ScanTick envs) st)) k = paneLastChange st k"
proof (induction envs arbitrary: st)
  case Nil
  then show ?case by simp
next
  case (Cons env envs)
  then show ?case
    using watchTick_absent [of k env th st] by simp
qed

text \<open>
  C2, as amended. Ticks whose pane set does not hold a pane's ID leave the snapshot and
  the time stamp stored for the ID as they are: nothing removes an entry. At the tick
  where the pane is listed again (its ID once in the pane set, the capture succeeding),
  the time stamp becomes the clock reading of that tick if the captured output differs
  from the snapshot stored before the pane disappeared, or none was stored; if the output
  is the stored snapshot, the time stamp stored before the pane disappeared is kept.
\<close>

theorem reappearing_pane_clock:
  assumes "\<forall>e \<in> set absent. ID p \<notin> paneIDs e"
    and "listTmuxPanes env = Inr (xs @ p # ys)"
    and "ID p \<notin> ID ` set xs" and "ID p \<notin> ID ` set ys"
    and "capturePaneOutput (paneEnvs env (length xs)) (ID p) = Inr out"
  shows "paneOutputs (fst (runWatch_loop th (map ScanTick absent) st)) (ID p) = paneOutputs st (ID p)
    \<and> paneLastChange (fst (runWatch_loop th (map ScanTick absent) st)) (ID p)
        = paneLastChange st (ID p)
    \<and> paneLastChange (fst (runWatch_loop th (map ScanTick absent @ [ScanTick env]) st)) (ID p)
        = (if paneOutputs st (ID p) = Some out then paneLastChange st (ID p)
           else Some (nowChange (paneEnvs env (length xs))))"
proof -
  let ?st1 = "fst (runWatch_loop th (map ScanTick absent) st)"
  have keep: "paneOutputs ?st1 (ID p) = paneOutputs st (ID p)"
    "paneLastChange ?st1 (ID p) = paneLastChange st (ID p)"
    using runWatch_loop_absent [OF assms(1), of th st] by simp_all
  have run: "fst (runWatch_loop th (map ScanTick absent @ [ScanTick env]) st) = watchTick th env ?st1"
    by (simp add: runWatch_loop_ticks_append)
  let ?st2 = "watchPanes th (paneEnvs env) 0 xs ?st1"
  note once = watchPanes_once [OF assms(3,4), of th "paneEnvs env" ?st1]
  have tick: "watchTick th env ?st1 = watchPanes th (paneEnvs env) 0 (xs @ p # ys) ?st1"
    using assms(2) by (simp add: watchTick_listed)
  have "paneLastChange (watchTick th env ?st1) (ID p)
        = (if paneOutputs st (ID p) = Some out then paneLastChange st (ID p)
           else Some (nowChange (paneEnvs env (length xs))))"
  proof (cases "paneOutputs st (ID p) = Some out")
    case True
    then have "paneOutputs ?st2 (ID p) = Some out"
      using once(4) keep by simp
    then show ?thesis
      using True once(2,5) keep watchPane_same [OF assms(5), of ?st2 th] by (simp add: tick)
  next
    case False
    then have "paneOutputs ?st2 (ID p) \<noteq> Some out"
      using once(4) keep by simp
    then show ?thesis
      using False once(2) watchPane_changed [OF assms(5), of ?st2 th] by (simp add: tick)
  qed
  then show ?thesis
    using keep run by simp
qed

theorem reappearing_pane_clock_witness:
  "ID (examplePane 30) \<notin> paneIDs (exampleTick [] ''x'' 20 20)
   \<and> listTmuxPanes (exampleTick onePaneListing ''y'' 30 30) = Inr ([] @ examplePane 30 # [])
   \<and> capturePaneOutput (paneEnvs (exampleTick onePaneListing ''y'' 30 30) 0) (ID (examplePane 30))
       = Inr ''y''
   \<and> paneLastChange
        (fst (runWatch_loop 5
           (map ScanTick [exampleTick [] ''x'' 20 20] @
              [ScanTick (exampleTick onePaneListing ''y'' 30 30)]) seenState)) ''%1'' = Some 30
   \<and> paneLastChange
        (fst (runWatch_loop 5
           (map ScanTick [exampleTick [] ''x'' 20 20] @
              [ScanTick (exampleTick onePaneListing ''x'' 30 30)]) seenState)) ''%1'' = Some 3"
proof -
  let ?absent = "[exampleTick [] ''x'' 20 20]"
  have a: "\<forall>e \<in> set ?absent. ID (examplePane 30) \<notin> paneIDs e"
    by (simp add: paneIDs_def tick_noPane)
  have l: "listTmuxPanes (exampleTick onePaneListing out 30 30) = Inr ([] @ examplePane 30 # [])"
    for out
    by (simp add: tick_onePane)
  have c: "capturePaneOutput (paneEnvs (exampleTick onePaneListing out 30 30) (length ([] :: paneInfo list)))
             (ID (examplePane 30)) = Inr out"
    and t: "nowChange (paneEnvs (exampleTick onePaneListing out 30 30) 0) = 30" for out
    by (simp_all add: exampleTick_def)
  have u: "ID (examplePane 30) \<notin> ID ` set []"
    by simp
  have i: "ID (examplePane 30) = ''%1''"
    by (simp add: examplePane_def)
  have s: "paneOutputs seenState ''%1'' = Some ''x''" "paneLastChange seenState ''%1'' = Some 3"
    by (simp_all add: seenState_def)
  have "paneLastChange
        (fst (runWatch_loop 5
           (map ScanTick ?absent @ [ScanTick (exampleTick onePaneListing ''y'' 30 30)]) seenState))
        ''%1'' = Some 30"
    using reappearing_pane_clock [OF a l u u c, of 5 seenState, THEN conjunct2, THEN conjunct2]
    by (simp only: i s t list.size) simp
  moreover have "paneLastChange
        (fst (runWatch_loop 5
           (map ScanTick ?absent @ [ScanTick (exampleTick onePaneListing ''x'' 30 30)]) seenState))
        ''%1'' = Some 3"
    using reappearing_pane_clock [OF a l u u c, of 5 seenState, THEN conjunct2, THEN conjunct2]
    by (simp only: i s t list.size) simp
  ultimately show ?thesis
    using a l [of "''y''"] c [of "''y''"] by simp
qed

text \<open>
  C2, as stated, fails: a pane seen at one tick, absent at the next, seen again at a third
  with the same output has, after the third tick, the time stamp of the first tick.
\<close>

theorem reappearing_pane_resumes_history:
  "listTmuxPanes (exampleTick onePaneListing ''x'' 10 10) = Inr [examplePane 10]
   \<and> listTmuxPanes (exampleTick [] ''x'' 20 20) = Inr []
   \<and> listTmuxPanes (exampleTick onePaneListing ''x'' 30 30) = Inr [examplePane 30]
   \<and> ID (examplePane 30) = ID (examplePane 10)
   \<and> nowChange (paneEnvs (exampleTick onePaneListing ''x'' 30 30) 0) = 30
   \<and> \<not> isl (runWatch 10 5
        [ScanTick (exampleTick onePaneListing ''x'' 10 10),
         ScanTick (exampleTick [] ''x'' 20 20),
         ScanTick (exampleTick onePaneListing ''x'' 30 30)])
   \<and> paneLastChange
        (fst (projr (runWatch 10 5
           [ScanTick (exampleTick onePaneListing ''x'' 10 10),
            ScanTick (exampleTick [] ''x'' 20 20),
            ScanTick (exampleTick onePaneListing ''x'' 30 30)]))) ''%1'' = Some 10
   \<and> (10 :: time) \<noteq> 30"
  by code_simp

section \<open>The pane list\<close>

lemma parsePaneList_loop_rows:
  "map paneColumns (panes (parsePaneList_loop lookup clk rows acc))
     = map paneColumns (panes acc) @ List.map_filter (paneOfRow lookup) rows
   \<and> lookups (parsePaneList_loop lookup clk rows acc)
     = lookups acc @ map (\<lambda>row. splitOn tab row ! 2) (filter needsLookup rows)"
proof (induction rows arbitrary: acc)
  case Nil
  then show ?case by (simp add: map_filter_simps)
next
  case (Cons row rows)
  show ?case
  proof (cases "row = []")
    case True
    then show ?thesis
      using Cons.IH [of acc] by (simp add: map_filter_simps paneOfRow_def needsLookup_def)
  next
    case False
    then show ?thesis
      using Cons.IH
      by (simp add: map_filter_simps paneOfRow_def needsLookup_def Let_def paneColumns_def)
  qed
qed

lemma parsePaneList_loop_append:
  "parsePaneList_loop lookup clk (xs @ ys) acc =
   parsePaneList_loop lookup clk ys (parsePaneList_loop lookup clk xs acc)"
  by (induction xs arbitrary: acc) (simp_all add: Let_def)

lemma parsePaneList_loop_panes_cong:
  "panes acc = panes acc' \<Longrightarrow>
   panes (parsePaneList_loop lookup clk rows acc) = panes (parsePaneList_loop lookup clk rows acc')"
proof (induction rows arbitrary: acc acc')
  case Nil
  then show ?case by simp
next
  case (Cons row rows)
  have step: "\<And>a a'. panes a = panes a' \<Longrightarrow>
      panes (parsePaneList_loop lookup clk rows a) = panes (parsePaneList_loop lookup clk rows a')"
    by (rule Cons.IH)
  show ?case
    using Cons.prems by (auto simp: Let_def intro!: step)
qed

lemma parsePaneList_loop_excluded:
  assumes "3 \<le> length (splitOn tab row)" "\<not> isTargetCommand (splitOn tab row ! 1)"
    "lookup (splitOn tab row ! 2) = []"
  shows "panes (parsePaneList_loop lookup clk (xs @ row # ys) acc)
         = panes (parsePaneList_loop lookup clk (xs @ ys) acc)"
proof -
  let ?a = "parsePaneList_loop lookup clk xs acc"
  have "row \<noteq> []"
    using assms(1) by auto
  then have "parsePaneList_loop lookup clk (row # ys) ?a =
      parsePaneList_loop lookup clk ys (?a\<lparr>lookups := lookups ?a @ [splitOn tab row ! 2]\<rparr>)"
    using assms by (simp add: Let_def)
  then show ?thesis
    using parsePaneList_loop_panes_cong
      [of "?a\<lparr>lookups := lookups ?a @ [splitOn tab row ! 2]\<rparr>" ?a lookup clk ys]
    by (simp add: parsePaneList_loop_append)
qed

text \<open>
  C3. On the listing of the panes \<^verbatim>\<open>%3\<close> (command \<^verbatim>\<open>claude\<close>, process 100) and
  \<^verbatim>\<open>%5\<close> (command \<^verbatim>\<open>node\<close>, process 200), with any lookup that maps 200 to
  \<^verbatim>\<open>codex\<close>, \<^verbatim>\<open>parsePaneList\<close> returns the two panes in row order, \<^verbatim>\<open>%3\<close> with
  \<^verbatim>\<open>claude\<close> and \<^verbatim>\<open>%5\<close> with \<^verbatim>\<open>codex\<close>, and has called the lookup for 200 only.
  For every listing, the panes returned are what the rows contribute, in row order; the
  lookup is called for the rows whose command names no target, and for no other; a row
  whose command names no target and whose lookup returns nothing leaves the panes as they
  are without it; and every pane returned has a target command or the non-empty name the
  lookup returned.
\<close>

theorem parsePaneList_registry:
  "parsePaneList (L(''200'' := ''codex'')) clk twoPaneListing =
      \<lparr>panes =
         [\<lparr>ID = ''%3'', Command = ''claude'', PID = ''100'', Dir = ''/a'', LastOutput = '''',
            LastChangeAt = clk 0\<rparr>,
          \<lparr>ID = ''%5'', Command = ''codex'', PID = ''200'', Dir = ''/b'', LastOutput = '''',
            LastChangeAt = clk 1\<rparr>],
       lookups = [''200'']\<rparr>
   \<and> map paneColumns (panes (parsePaneList lookup clk out))
       = List.map_filter (paneOfRow lookup) (splitOn newline (TrimSpace out))
   \<and> lookups (parsePaneList lookup clk out)
       = map (\<lambda>row. splitOn tab row ! 2) (filter needsLookup (splitOn newline (TrimSpace out)))
   \<and> (splitOn newline (TrimSpace out) = xs @ row # ys \<and> 3 \<le> length (splitOn tab row)
        \<and> \<not> isTargetCommand (splitOn tab row ! 1) \<and> lookup (splitOn tab row ! 2) = '''' \<longrightarrow>
        panes (parsePaneList lookup clk out)
        = panes (parsePaneList_loop lookup clk (xs @ ys) \<lparr>panes = [], lookups = []\<rparr>))
   \<and> (\<forall>p \<in> set (panes (parsePaneList lookup clk out)).
        isTargetCommand (Command p) \<or> (Command p = lookup (PID p) \<and> lookup (PID p) \<noteq> ''''))"
proof (intro conjI impI ballI)
  show "parsePaneList (L(''200'' := ''codex'')) clk twoPaneListing =
      \<lparr>panes =
         [\<lparr>ID = ''%3'', Command = ''claude'', PID = ''100'', Dir = ''/a'', LastOutput = '''',
            LastChangeAt = clk 0\<rparr>,
          \<lparr>ID = ''%5'', Command = ''codex'', PID = ''200'', Dir = ''/b'', LastOutput = '''',
            LastChangeAt = clk 1\<rparr>],
       lookups = [''200'']\<rparr>"
    by code_simp
next
  show cols: "map paneColumns (panes (parsePaneList lookup clk out))
       = List.map_filter (paneOfRow lookup) (splitOn newline (TrimSpace out))"
    using parsePaneList_loop_rows
      [of lookup clk "splitOn newline (TrimSpace out)" "\<lparr>panes = [], lookups = []\<rparr>"]
    by (simp add: parsePaneList_def)
  show "lookups (parsePaneList lookup clk out)
       = map (\<lambda>row. splitOn tab row ! 2) (filter needsLookup (splitOn newline (TrimSpace out)))"
    using parsePaneList_loop_rows
      [of lookup clk "splitOn newline (TrimSpace out)" "\<lparr>panes = [], lookups = []\<rparr>"]
    by (simp add: parsePaneList_def)
  fix p
  assume "p \<in> set (panes (parsePaneList lookup clk out))"
  then have "paneColumns p \<in> set (map paneColumns (panes (parsePaneList lookup clk out)))"
    by simp
  then obtain r where "paneOfRow lookup r = Some (paneColumns p)"
    unfolding cols by (auto simp: map_filter_def)
  then show "isTargetCommand (Command p) \<or> (Command p = lookup (PID p) \<and> lookup (PID p) \<noteq> '''')"
    by (auto simp: paneOfRow_def paneColumns_def Let_def split: if_splits)
next
  assume "splitOn newline (TrimSpace out) = xs @ row # ys \<and> 3 \<le> length (splitOn tab row)
        \<and> \<not> isTargetCommand (splitOn tab row ! 1) \<and> lookup (splitOn tab row ! 2) = ''''"
  then show "panes (parsePaneList lookup clk out)
        = panes (parsePaneList_loop lookup clk (xs @ ys) \<lparr>panes = [], lookups = []\<rparr>)"
    by (simp add: parsePaneList_def parsePaneList_loop_excluded)
qed

theorem parsePaneList_registry_witness:
  "splitOn newline (TrimSpace threePaneListing) =
     [''%3'' @ [tab] @ ''claude'' @ [tab] @ ''100'' @ [tab] @ ''/a''] @
       (''%8'' @ [tab] @ ''bash'' @ [tab] @ ''300'') # [''%5'' @ [tab] @ ''node'' @ [tab] @ ''200'' @ [tab] @ ''/b'']
   \<and> 3 \<le> length (splitOn tab (''%8'' @ [tab] @ ''bash'' @ [tab] @ ''300''))
   \<and> \<not> isTargetCommand (splitOn tab (''%8'' @ [tab] @ ''bash'' @ [tab] @ ''300'') ! 1)
   \<and> codexAt200 (splitOn tab (''%8'' @ [tab] @ ''bash'' @ [tab] @ ''300'') ! 2) = ''''
   \<and> panes (parsePaneList codexAt200 (\<lambda>k. int k) threePaneListing)
       = panes (parsePaneList_loop codexAt200 (\<lambda>k. int k)
           ([''%3'' @ [tab] @ ''claude'' @ [tab] @ ''100'' @ [tab] @ ''/a''] @
            [''%5'' @ [tab] @ ''node'' @ [tab] @ ''200'' @ [tab] @ ''/b''])
           \<lparr>panes = [], lookups = []\<rparr>)
   \<and> map ID (panes (parsePaneList codexAt200 (\<lambda>k. int k) threePaneListing)) = [''%3'', ''%5'']"
proof -
  let ?r1 = "''%3'' @ [tab] @ ''claude'' @ [tab] @ ''100'' @ [tab] @ ''/a''"
  let ?r2 = "''%8'' @ [tab] @ ''bash'' @ [tab] @ ''300''"
  let ?r3 = "''%5'' @ [tab] @ ''node'' @ [tab] @ ''200'' @ [tab] @ ''/b''"
  have h: "splitOn newline (TrimSpace threePaneListing) = [?r1] @ ?r2 # [?r3]
      \<and> 3 \<le> length (splitOn tab ?r2)
      \<and> \<not> isTargetCommand (splitOn tab ?r2 ! 1) \<and> codexAt200 (splitOn tab ?r2 ! 2) = ''''"
    by code_simp
  have v: "map ID (panes (parsePaneList codexAt200 (\<lambda>k. int k) threePaneListing)) = [''%3'', ''%5'']"
    by code_simp
  show ?thesis
    using parsePaneList_registry
        [where lookup = codexAt200 and clk = "\<lambda>k. int k" and out = threePaneListing
            and xs = "[?r1]" and row = ?r2 and ys = "[?r3]",
          THEN conjunct2, THEN conjunct2, THEN conjunct2, THEN conjunct1, THEN mp, OF h]
      h v
    by simp
qed

section \<open>The process tree\<close>

subsection \<open>Base names and the loop\<close>

lemma splitOn_notin: "sep \<notin> set s \<Longrightarrow> splitOn sep s = [s]"
  by (induction s) auto

lemma splitOn_in: "sep \<in> set s \<Longrightarrow> \<exists>x y ys. splitOn sep s = x # y # ys"
proof (induction s)
  case Nil
  then show ?case by simp
next
  case (Cons c s)
  show ?case
  proof (cases "c = sep")
    case True
    then show ?thesis
      using splitOn_nonempty [of sep s] by (cases "splitOn sep s") auto
  next
    case False
    with Cons.prems have "sep \<in> set s" by simp
    from Cons.IH [OF this] obtain x y ys where "splitOn sep s = x # y # ys" by blast
    with False show ?thesis by simp
  qed
qed

lemma LastIndexByte_nonneg: "0 \<le> LastIndexByte s c \<longleftrightarrow> c \<in> set s"
  by (induction s) (auto simp: Let_def)

lemma drop_LastIndexByte:
  "c \<in> set s \<Longrightarrow> drop (nat (LastIndexByte s c + 1)) s = last (splitOn c s)"
proof (induction s)
  case Nil
  then show ?case by simp
next
  case (Cons x s)
  show ?case
  proof (cases "c \<in> set s")
    case True
    then have nn: "0 \<le> LastIndexByte s c"
      by (simp add: LastIndexByte_nonneg)
    obtain y z zs where sp: "splitOn c s = y # z # zs"
      using splitOn_in [OF True] by blast
    have "drop (nat (LastIndexByte (x # s) c + 1)) (x # s) = drop (nat (LastIndexByte s c + 1)) s"
      using nn by (simp add: Let_def nat_add_distrib)
    also have "\<dots> = last (splitOn c s)"
      using Cons.IH [OF True] .
    also have "\<dots> = last (splitOn c (x # s))"
      using sp by simp
    finally show ?thesis .
  next
    case False
    with Cons.prems have xc: "x = c" by simp
    have neg: "\<not> 0 \<le> LastIndexByte s c"
      using False by (simp add: LastIndexByte_nonneg)
    then show ?thesis
      using xc False by (simp add: Let_def splitOn_notin)
  qed
qed

lemma isTargetCommand_baseName:
  "isTargetCommand cmd \<longleftrightarrow> baseName cmd = ''claude'' \<or> baseName cmd = ''codex''"
proof (cases "CHR ''/'' \<in> set cmd")
  case True
  then show ?thesis
    by (simp add: isTargetCommand_def baseName_def Let_def LastIndexByte_nonneg drop_LastIndexByte)
next
  case False
  then show ?thesis
    by (simp add: isTargetCommand_def baseName_def Let_def LastIndexByte_nonneg splitOn_notin)
qed

lemma isTargetCommand_nonempty: "isTargetCommand cmd \<Longrightarrow> cmd \<noteq> []"
  by (auto simp: isTargetCommand_def)

lemma loop_Nil [simp]: "findTargetDescendant_loop tree [] = Some []"
  by (simp add: findTargetDescendant_loop.simps)

lemma loop_Cons:
  "findTargetDescendant_loop tree (c # rest) =
     (if isTargetCommand (comm c) then Some (comm c)
      else Option.bind (findTargetDescendant_loop tree (children tree (pid c)))
             (\<lambda>found. if found \<noteq> [] then Some found
                       else findTargetDescendant_loop tree rest))"
  by (subst findTargetDescendant_loop.simps) simp

lemma loop_append:
  "findTargetDescendant_loop tree (xs @ ys) =
     Option.bind (findTargetDescendant_loop tree xs)
       (\<lambda>found. if found \<noteq> [] then Some found else findTargetDescendant_loop tree ys)"
proof (induction xs)
  case Nil
  then show ?case by simp
next
  case (Cons c xs)
  show ?case
  proof (cases "isTargetCommand (comm c)")
    case True
    then show ?thesis
      by (simp add: loop_Cons isTargetCommand_nonempty)
  next
    case False
    then show ?thesis
      using Cons.IH
      by (cases "findTargetDescendant_loop tree (children tree (pid c))") (simp_all add: loop_Cons)
  qed
qed

subsection \<open>Depth-first order\<close>

lemma searchStack_push:
  "\<not> isTargetCommand (comm c) \<Longrightarrow>
   searchStack tree ((c # cs) # stack) = searchStack tree (children tree (pid c) # cs # stack)"
  by (cases "findTargetDescendant_loop tree (children tree (pid c))")
    (simp_all add: loop_Cons)

lemma searchStack_single:
  "searchStack tree [cs] = Some r \<longleftrightarrow> findTargetDescendant_loop tree cs = Some r"
  by (cases "findTargetDescendant_loop tree cs") auto

lemma dfsVisit_found:
  "find isTargetCommand (dfsVisit n tree stack) = Some r \<Longrightarrow> searchStack tree stack = Some r"
proof (induction n tree stack rule: dfsVisit.induct)
  case (4 n tree c cs stack)
  show ?case
  proof (cases "isTargetCommand (comm c)")
    case True
    with "4.prems" have "r = comm c" by simp
    with True show ?thesis
      by (simp add: loop_Cons isTargetCommand_nonempty)
  next
    case False
    with "4.prems" have "find isTargetCommand (dfsVisit n tree (children tree (pid c) # cs # stack)) = Some r"
      by simp
    then have "searchStack tree (children tree (pid c) # cs # stack) = Some r"
      by (rule "4.IH")
    then show ?thesis
      unfolding searchStack_push [OF False] .
  qed
qed simp_all

lemma dfsVisit_exhausted:
  "length (dfsVisit n tree stack) < n \<Longrightarrow> find isTargetCommand (dfsVisit n tree stack) = None \<Longrightarrow>
   searchStack tree stack = Some []"
proof (induction n tree stack rule: dfsVisit.induct)
  case (4 n tree c cs stack)
  from "4.prems" have nt: "\<not> isTargetCommand (comm c)"
    and len: "length (dfsVisit n tree (children tree (pid c) # cs # stack)) < n"
    and none: "find isTargetCommand (dfsVisit n tree (children tree (pid c) # cs # stack)) = None"
    by (auto split: if_splits)
  have "searchStack tree (children tree (pid c) # cs # stack) = Some []"
    using len none by (rule "4.IH")
  then show ?case
    unfolding searchStack_push [OF nt] .
qed simp_all

text \<open>The converse: what a search that returns has visited.\<close>

lemma dfsVisit_Nil_stack: "dfsVisit n tree ([] # stack) = dfsVisit n tree stack"
  by (cases n) simp_all

lemma loop_visits:
  assumes "findTargetDescendant_loop tree cs = Some r"
  shows "(r \<noteq> [] \<longrightarrow> (\<exists>k. \<forall>stack n. k \<le> n \<longrightarrow>
        find isTargetCommand (dfsVisit n tree (cs # stack)) = Some r))
   \<and> (r = [] \<longrightarrow> (\<exists>vs. (\<forall>x \<in> set vs. \<not> isTargetCommand x)
        \<and> (\<forall>stack n. dfsVisit (length vs + n) tree (cs # stack) = vs @ dfsVisit n tree stack)))"
  using assms
proof (induction rule: findTargetDescendant_loop.raw_induct [rotated 1, consumes 1])
  case (1 loop tree cs r)
  show ?case
  proof (cases cs)
    case Nil
    with "1.hyps" have "r = []" by simp
    moreover have "\<forall>stack n. dfsVisit (length ([] :: string list) + n) tree ([] # stack)
        = [] @ dfsVisit n tree stack"
      by (simp add: dfsVisit_Nil_stack)
    ultimately have "r = [] \<and> (\<exists>vs. (\<forall>x \<in> set vs. \<not> isTargetCommand x)
        \<and> (\<forall>stack n. dfsVisit (length vs + n) tree ([] # stack) = vs @ dfsVisit n tree stack))"
      by (intro conjI exI [of _ "[]"]) simp_all
    then show ?thesis
      unfolding Nil by simp
  next
    case (Cons c rest)
    show ?thesis
    proof (cases "isTargetCommand (comm c)")
      case True
      with "1.hyps" Cons have r: "r = comm c" by simp
      have "\<forall>stack n. 1 \<le> n \<longrightarrow>
          find isTargetCommand (dfsVisit n tree ((c # rest) # stack)) = Some (comm c)"
      proof (intro allI impI)
        fix stack and n :: nat
        assume "1 \<le> n"
        then obtain m where "n = Suc m" by (cases n) auto
        then show "find isTargetCommand (dfsVisit n tree ((c # rest) # stack)) = Some (comm c)"
          using True by simp
      qed
      then have "\<exists>k. \<forall>stack n. k \<le> n \<longrightarrow>
          find isTargetCommand (dfsVisit n tree ((c # rest) # stack)) = Some (comm c)"
        by (rule exI)
      then show ?thesis
        using r True isTargetCommand_nonempty [of "comm c"] unfolding Cons by simp
    next
      case False
      with "1.hyps" Cons obtain found where
        sub: "loop tree (children tree (pid c)) = Some found"
        and res: "(if found \<noteq> [] then Some found else loop tree rest) = Some r"
        by (auto simp: bind_eq_Some_conv)
      note IHsub = "1.IH" [OF sub]
      show ?thesis
      proof (cases "found = []")
        case fne: False
        with res have r: "r = found" by simp
        from IHsub fne obtain k where
          k: "\<forall>stack n. k \<le> n \<longrightarrow>
            find isTargetCommand (dfsVisit n tree (children tree (pid c) # stack)) = Some found"
          by blast
        have "\<forall>stack n. Suc k \<le> n \<longrightarrow>
            find isTargetCommand (dfsVisit n tree ((c # rest) # stack)) = Some found"
        proof (intro allI impI)
          fix stack and n :: nat
          assume "Suc k \<le> n"
          then obtain m where m: "n = Suc m" "k \<le> m" by (cases n) auto
          then show "find isTargetCommand (dfsVisit n tree ((c # rest) # stack)) = Some found"
            using False k by simp
        qed
        then have "\<exists>k. \<forall>stack n. k \<le> n \<longrightarrow>
            find isTargetCommand (dfsVisit n tree ((c # rest) # stack)) = Some found"
          by (rule exI)
        then show ?thesis
          using r fne unfolding Cons by simp
      next
        case fe: True
        with res have rest: "loop tree rest = Some r" by simp
        note IHrest = "1.IH" [OF rest]
        from IHsub fe obtain vs1 where
          vs1: "\<forall>x \<in> set vs1. \<not> isTargetCommand x"
          "\<forall>stack n. dfsVisit (length vs1 + n) tree (children tree (pid c) # stack)
              = vs1 @ dfsVisit n tree stack"
          by blast
        have unfold: "dfsVisit (Suc (length vs1 + n)) tree ((c # rest) # stack)
            = comm c # vs1 @ dfsVisit n tree (rest # stack)" for n stack
          using vs1(2) by simp
        show ?thesis
        proof (cases "r = []")
          case rne: False
          from IHrest rne obtain k where
            k: "\<forall>stack n. k \<le> n \<longrightarrow>
              find isTargetCommand (dfsVisit n tree (rest # stack)) = Some r"
            by blast
          have "\<forall>stack n. Suc (length vs1 + k) \<le> n \<longrightarrow>
              find isTargetCommand (dfsVisit n tree ((c # rest) # stack)) = Some r"
          proof (intro allI impI)
            fix stack and n :: nat
            assume "Suc (length vs1 + k) \<le> n"
            then obtain m where m: "n = Suc (length vs1 + m)" "k \<le> m"
              by (metis Suc_le_D add_Suc_right le_Suc_ex add.assoc add_Suc
                  le_add1 add_le_cancel_left)
            have "find isTargetCommand (vs1 @ ys) = find isTargetCommand ys" for ys
              using vs1(1) by (induction vs1) auto
            then show "find isTargetCommand (dfsVisit n tree ((c # rest) # stack)) = Some r"
              using False k m vs1(2) by simp
          qed
          then have "\<exists>k. \<forall>stack n. k \<le> n \<longrightarrow>
              find isTargetCommand (dfsVisit n tree ((c # rest) # stack)) = Some r"
            by (rule exI)
          then show ?thesis
            using rne unfolding Cons by simp
        next
          case re: True
          from IHrest re obtain vs2 where
            vs2: "\<forall>x \<in> set vs2. \<not> isTargetCommand x"
            "\<forall>stack n. dfsVisit (length vs2 + n) tree (rest # stack) = vs2 @ dfsVisit n tree stack"
            by blast
          let ?vs = "comm c # vs1 @ vs2"
          have "\<forall>x \<in> set ?vs. \<not> isTargetCommand x"
            using False vs1(1) vs2(1) by auto
          moreover have "\<forall>stack n. dfsVisit (length ?vs + n) tree ((c # rest) # stack)
              = ?vs @ dfsVisit n tree stack"
          proof (intro allI)
            fix stack n
            have "length ?vs + n = Suc (length vs1 + (length vs2 + n))"
              by simp
            then show "dfsVisit (length ?vs + n) tree ((c # rest) # stack) = ?vs @ dfsVisit n tree stack"
              using unfold [of "length vs2 + n" stack] vs2(2) by (simp add: add.assoc)
          qed
          ultimately have "\<exists>vs. (\<forall>x \<in> set vs. \<not> isTargetCommand x)
              \<and> (\<forall>stack n. dfsVisit (length vs + n) tree ((c # rest) # stack)
                    = vs @ dfsVisit n tree stack)"
            by (intro exI [of _ ?vs] conjI)
          then show ?thesis
            using re unfolding Cons by simp
        qed
      qed
    qed
  qed
qed

subsection \<open>Permuting siblings\<close>

lemma targetFree_passedOver: "targetFree n tree c \<Longrightarrow> passedOver tree c"
proof -
  assume "targetFree n tree c"
  then have "length (dfsVisit n tree [[c]]) < n"
    and "find isTargetCommand (dfsVisit n tree [[c]]) = None"
    by (simp_all add: targetFree_def)
  then have "searchStack tree [[c]] = Some []"
    by (rule dfsVisit_exhausted)
  then have l: "findTargetDescendant_loop tree [c] = Some []"
    unfolding searchStack_single .
  show ?thesis
  proof (cases "isTargetCommand (comm c)")
    case True
    with l show ?thesis
      by (simp add: loop_Cons isTargetCommand_nonempty)
  next
    case False
    with l show ?thesis
      by (auto simp: loop_Cons passedOver_def bind_eq_Some_conv split: if_splits)
  qed
qed

lemma loop_passedOver:
  "passedOver tree c \<Longrightarrow>
   findTargetDescendant_loop tree (c # rest) = findTargetDescendant_loop tree rest"
  by (simp add: passedOver_def loop_Cons)

lemma loop_all_passedOver:
  "\<forall>c \<in> set cs. passedOver tree c \<Longrightarrow> findTargetDescendant_loop tree cs = Some []"
  by (induction cs) (simp_all add: loop_passedOver)

lemma loop_empty_transfer:
  assumes "findTargetDescendant_loop tree cs = Some r"
    and "\<forall>p. set (children tree' p) = set (children tree p)"
  shows "r = [] \<longrightarrow> (\<forall>c \<in> set cs. passedOver tree' c)"
  using assms
proof (induction rule: findTargetDescendant_loop.raw_induct [rotated 1, consumes 1])
  case (1 loop tree cs r)
  show ?case
  proof (cases cs)
    case Nil
    then show ?thesis by simp
  next
    case (Cons c rest)
    show ?thesis
    proof (intro impI)
      assume r: "r = []"
      have nt: "\<not> isTargetCommand (comm c)"
        using "1.hyps" Cons r isTargetCommand_nonempty [of "comm c"] by auto
      with "1.hyps" Cons r have sub: "loop tree (children tree (pid c)) = Some []"
        and rest: "loop tree rest = Some []"
        by (auto simp: bind_eq_Some_conv split: if_splits)
      have "\<forall>d \<in> set (children tree (pid c)). passedOver tree' d"
        using "1.IH" [OF sub "1.prems"] by simp
      then have "\<forall>d \<in> set (children tree' (pid c)). passedOver tree' d"
        using "1.prems" by simp
      then have "passedOver tree' c"
        using nt by (simp add: passedOver_def loop_all_passedOver)
      moreover have "\<forall>d \<in> set rest. passedOver tree' d"
        using "1.IH" [OF rest "1.prems"] by simp
      ultimately show "\<forall>c \<in> set cs. passedOver tree' c"
        using Cons by simp
    qed
  qed
qed

lemma passedOver_transfer:
  assumes "passedOver tree c" and "\<forall>p. set (children tree' p) = set (children tree p)"
  shows "passedOver tree' c"
proof -
  from assms(1) have "findTargetDescendant_loop tree (children tree (pid c)) = Some []"
    and nt: "\<not> isTargetCommand (comm c)"
    by (simp_all add: passedOver_def)
  then have "\<forall>d \<in> set (children tree (pid c)). passedOver tree' d"
    using loop_empty_transfer [OF _ assms(2)] by blast
  then have "\<forall>d \<in> set (children tree' (pid c)). passedOver tree' d"
    using assms(2) by simp
  then show ?thesis
    using nt by (simp add: passedOver_def loop_all_passedOver)
qed

lemma loop_swap:
  assumes "passedOver tree a \<or> passedOver tree b"
  shows "findTargetDescendant_loop tree (xs @ a # b # ys)
         = findTargetDescendant_loop tree (xs @ b # a # ys)"
proof -
  have "findTargetDescendant_loop tree (a # b # ys) = findTargetDescendant_loop tree (b # a # ys)"
    using assms
  proof
    assume a: "passedOver tree a"
    show ?thesis
      by (cases "findTargetDescendant_loop tree (children tree (pid b))")
        (simp_all add: loop_passedOver [OF a] loop_Cons [of tree b])
  next
    assume b: "passedOver tree b"
    show ?thesis
      by (cases "findTargetDescendant_loop tree (children tree (pid a))")
        (simp_all add: loop_passedOver [OF b] loop_Cons [of tree a])
  qed
  then show ?thesis
    by (simp add: loop_append [of tree xs] cong del: if_weak_cong)
qed

lemma permuteFree_set: "permuteFree tree cs cs' \<Longrightarrow> set cs = set cs'"
  by (induction rule: permuteFree.induct) auto

lemma loop_permuteFree:
  assumes "permuteFree tree cs cs'" and "\<forall>p. set (children tree' p) = set (children tree p)"
  shows "findTargetDescendant_loop tree' cs = findTargetDescendant_loop tree' cs'"
  using assms
proof (induction rule: permuteFree.induct)
  case (same cs)
  then show ?case by simp
next
  case (swap n a b xs ys)
  then have "passedOver tree a \<or> passedOver tree b"
    by (auto dest: targetFree_passedOver)
  then have "passedOver tree' a \<or> passedOver tree' b"
    using passedOver_transfer [OF _ swap.prems] by blast
  then show ?case
    by (rule loop_swap)
next
  case (step cs cs' cs'')
  then show ?case by simp
qed

text \<open>Two trees whose lists of siblings differ by such permutations only.\<close>

lemma loop_permuted_forward:
  assumes "findTargetDescendant_loop tree cs = Some r"
    and "\<forall>p. permuteFree tree (children tree p) (children tree' p)"
  shows "findTargetDescendant_loop tree' cs = Some r"
  using assms
proof (induction rule: findTargetDescendant_loop.raw_induct [rotated 1, consumes 1])
  case (1 loop tree cs r)
  have sets: "\<forall>p. set (children tree' p) = set (children tree p)"
    using "1.prems" permuteFree_set by blast
  show ?case
  proof (cases cs)
    case Nil
    with "1.hyps" show ?thesis by simp
  next
    case (Cons c rest)
    show ?thesis
    proof (cases "isTargetCommand (comm c)")
      case True
      with "1.hyps" Cons show ?thesis
        by (simp add: loop_Cons)
    next
      case False
      with "1.hyps" Cons obtain found where
        sub: "loop tree (children tree (pid c)) = Some found"
        and res: "(if found \<noteq> [] then Some found else loop tree rest) = Some r"
        by (auto simp: bind_eq_Some_conv)
      have "findTargetDescendant_loop tree' (children tree (pid c)) = Some found"
        using "1.IH" [OF sub "1.prems"] .
      moreover have "findTargetDescendant_loop tree' (children tree (pid c))
          = findTargetDescendant_loop tree' (children tree' (pid c))"
        using "1.prems" sets by (intro loop_permuteFree [of tree]) simp_all
      ultimately have sub': "findTargetDescendant_loop tree' (children tree' (pid c)) = Some found"
        by simp
      show ?thesis
      proof (cases "found = []")
        case True
        with res have "loop tree rest = Some r" by simp
        then have "findTargetDescendant_loop tree' rest = Some r"
          using "1.IH" "1.prems" by blast
        with sub' True False Cons show ?thesis
          by (simp add: loop_Cons)
      next
        case fne: False
        with res have "r = found" by simp
        with sub' fne False Cons show ?thesis
          by (simp add: loop_Cons)
      qed
    qed
  qed
qed

lemma loop_permuted_backward:
  assumes "findTargetDescendant_loop tree' cs = Some r"
    and "\<forall>p. permuteFree tree (children tree p) (children tree' p)"
  shows "findTargetDescendant_loop tree cs = Some r"
  using assms
proof (induction rule: findTargetDescendant_loop.raw_induct [rotated 1, consumes 1])
  case (1 loop tree' cs r)
  show ?case
  proof (cases cs)
    case Nil
    with "1.hyps" show ?thesis by simp
  next
    case (Cons c rest)
    show ?thesis
    proof (cases "isTargetCommand (comm c)")
      case True
      with "1.hyps" Cons show ?thesis
        by (simp add: loop_Cons)
    next
      case False
      with "1.hyps" Cons obtain found where
        sub: "loop tree' (children tree' (pid c)) = Some found"
        and res: "(if found \<noteq> [] then Some found else loop tree' rest) = Some r"
        by (auto simp: bind_eq_Some_conv)
      have "findTargetDescendant_loop tree (children tree' (pid c)) = Some found"
        using "1.IH" [OF sub "1.prems"] .
      moreover have "findTargetDescendant_loop tree (children tree (pid c))
          = findTargetDescendant_loop tree (children tree' (pid c))"
        using "1.prems" by (intro loop_permuteFree [of tree]) simp_all
      ultimately have sub': "findTargetDescendant_loop tree (children tree (pid c)) = Some found"
        by simp
      show ?thesis
      proof (cases "found = []")
        case True
        with res have "loop tree' rest = Some r" by simp
        then have "findTargetDescendant_loop tree rest = Some r"
          using "1.IH" "1.prems" by blast
        with sub' True False Cons show ?thesis
          by (simp add: loop_Cons)
      next
        case fne: False
        with res have "r = found" by simp
        with sub' fne False Cons show ?thesis
          by (simp add: loop_Cons)
      qed
    qed
  qed
qed

lemma findTargetDescendant_permuted:
  assumes "\<forall>p. permuteFree tree (children tree p) (children tree' p)"
  shows "findTargetDescendant tree' root = findTargetDescendant tree root"
proof -
  have sets: "\<forall>p. set (children tree' p) = set (children tree p)"
    using assms permuteFree_set by blast
  have top: "findTargetDescendant_loop tree' (children tree' root)
      = findTargetDescendant_loop tree' (children tree root)"
    using assms sets loop_permuteFree [of tree "children tree root" "children tree' root" tree']
    by simp
  show ?thesis
  proof (cases "findTargetDescendant_loop tree (children tree root)")
    case (Some r)
    then show ?thesis
      using loop_permuted_forward [OF Some assms] top by (simp add: findTargetDescendant_def)
  next
    case None
    have "findTargetDescendant_loop tree' (children tree root) = None"
    proof (rule ccontr)
      assume "findTargetDescendant_loop tree' (children tree root) \<noteq> None"
      then obtain r where "findTargetDescendant_loop tree' (children tree root) = Some r"
        by auto
      from loop_permuted_backward [OF this assms] None show False
        by simp
    qed
    with None top show ?thesis
      by (simp add: findTargetDescendant_def)
  qed
qed

subsection \<open>Termination\<close>

lemma children_buildProcessTree_loop:
  "children (buildProcessTree_loop lines tree) p =
   children tree p @
     map (\<lambda>(a, b, c). \<lparr>pid = a, comm = c\<rparr>) (filter (\<lambda>(a, b, c). b = p) (psRows_loop lines))"
proof (induction lines arbitrary: tree)
  case Nil
  then show ?case by simp
next
  case (Cons line lines)
  show ?case
  proof (cases "length (Fields line) < 3")
    case True
    then show ?thesis
      using Cons.IH [of tree] by simp
  next
    case False
    let ?f = "Fields line"
    let ?e = "\<lparr>pid = ?f ! 0, comm = ?f ! 2\<rparr>"
    let ?tree = "tree(?f ! 1 \<mapsto> children tree (?f ! 1) @ [?e])"
    have step: "buildProcessTree_loop (line # lines) tree = buildProcessTree_loop lines ?tree"
      using False by (simp add: Let_def)
    have rows: "psRows_loop (line # lines) = (?f ! 0, ?f ! 1, ?f ! 2) # psRows_loop lines"
      using False by (simp add: Let_def)
    have ch: "children ?tree p = children tree p @ (if ?f ! 1 = p then [?e] else [])"
      by (simp add: children_def)
    show ?thesis
      unfolding step rows Cons.IH [of ?tree] ch by simp
  qed
qed

lemma children_buildProcessTree:
  "children (buildProcessTree psOutput) p =
   map (\<lambda>(a, b, c). \<lparr>pid = a, comm = c\<rparr>) (filter (\<lambda>(a, b, c). b = p) (psRows psOutput))"
  by (simp add: buildProcessTree_def psRows_def children_buildProcessTree_loop)
    (simp add: children_def)

lemma treeEdges_buildProcessTree: "treeEdges (buildProcessTree psOutput) \<subseteq> rowEdges psOutput"
  by (auto simp: treeEdges_def rowEdges_def children_buildProcessTree) force

lemma wf_rowEdges:
  assumes "acyclic (rowEdges psOutput)"
  shows "wf (treeEdges (buildProcessTree psOutput))"
proof -
  have "finite (rowEdges psOutput)"
    by (simp add: rowEdges_def)
  then have "wf (rowEdges psOutput)"
    using assms by (rule finite_acyclic_wf)
  then show ?thesis
    using treeEdges_buildProcessTree by (rule wf_subset)
qed

lemma loop_total:
  assumes "wf (treeEdges tree)"
  shows "\<exists>r. findTargetDescendant_loop tree (children tree p) = Some r"
  using assms
proof (induction p rule: wf_induct_rule)
  case (less p)
  have "set cs \<subseteq> set (children tree p) \<Longrightarrow> \<exists>r. findTargetDescendant_loop tree cs = Some r" for cs
  proof (induction cs)
    case Nil
    then show ?case by simp
  next
    case (Cons c cs)
    then have "(pid c, p) \<in> treeEdges tree"
      by (auto simp: treeEdges_def)
    then obtain found where "findTargetDescendant_loop tree (children tree (pid c)) = Some found"
      using less.IH by blast
    moreover obtain r where "findTargetDescendant_loop tree cs = Some r"
      using Cons by auto
    ultimately show ?case
      by (simp add: loop_Cons)
  qed
  then show ?case
    by simp
qed

lemma findTargetChild_baseName:
  "findTargetChild psOutput panePID =
   map_option baseName (findTargetDescendant (buildProcessTree psOutput) panePID)"
proof (cases "findTargetDescendant (buildProcessTree psOutput) panePID")
  case None
  then show ?thesis
    by (simp add: findTargetChild_def)
next
  case (Some found)
  show ?thesis
  proof (cases "CHR ''/'' \<in> set found")
    case True
    then show ?thesis
      using Some
      by (auto simp: findTargetChild_def baseName_def Let_def LastIndexByte_nonneg
          drop_LastIndexByte)
  next
    case False
    then show ?thesis
      using Some
      by (auto simp: findTargetChild_def baseName_def Let_def LastIndexByte_nonneg splitOn_notin)
  qed
qed

lemma loop_self_parent:
  assumes "children tree p = c # rest" and "pid c = p" and "\<not> isTargetCommand (comm c)"
  shows "findTargetDescendant tree p = None"
proof (rule ccontr)
  assume "findTargetDescendant tree p \<noteq> None"
  then obtain y where y: "findTargetDescendant_loop tree (c # rest) = Some y"
    using assms(1) by (auto simp: findTargetDescendant_def)
  have "findTargetDescendant_loop t cs = Some z \<Longrightarrow> t = tree \<Longrightarrow> cs = c # rest \<Longrightarrow> False"
    for t cs z
  proof (induction rule: findTargetDescendant_loop.raw_induct [rotated 1, consumes 1])
    case (1 loop t cs z)
    from "1.hyps" "1.prems" assms obtain found where "loop tree (c # rest) = Some found"
      by (auto simp: bind_eq_Some_conv)
    then show False
      using "1.IH" [of tree "c # rest" found] by simp
  qed
  with y show False
    by blast
qed

text \<open>
  C9. For every process listing whose rows form an acyclic graph, \<^verbatim>\<open>findTargetChild\<close>
  returns, and so does \<^verbatim>\<open>findTargetDescendant\<close> on every tree whose edges are well
  founded. Without it the search need not return: on the listing of one process that is
  its own parent, with no target command, the rows are not acyclic and the search from
  that process never returns.
\<close>

theorem findTargetChild_terminates:
  "(acyclic (rowEdges psOutput) \<longrightarrow> (\<exists>r. findTargetChild psOutput panePID = Some r))
   \<and> (wf (treeEdges tree) \<longrightarrow> (\<exists>r. findTargetDescendant tree root = Some r))
   \<and> psRows selfParentListing = [(''1'', ''1'', ''bash'')]
   \<and> \<not> acyclic (rowEdges selfParentListing)
   \<and> findTargetDescendant (buildProcessTree selfParentListing) ''1'' = None
   \<and> findTargetChild selfParentListing ''1'' = None"
proof (intro conjI impI)
  assume "acyclic (rowEdges psOutput)"
  then have "wf (treeEdges (buildProcessTree psOutput))"
    by (rule wf_rowEdges)
  then obtain r where "findTargetDescendant (buildProcessTree psOutput) panePID = Some r"
    using loop_total by (auto simp: findTargetDescendant_def)
  then show "\<exists>r. findTargetChild psOutput panePID = Some r"
    by (simp add: findTargetChild_baseName)
next
  assume "wf (treeEdges tree)"
  then show "\<exists>r. findTargetDescendant tree root = Some r"
    using loop_total by (auto simp: findTargetDescendant_def)
next
  show rows: "psRows selfParentListing = [(''1'', ''1'', ''bash'')]"
    by code_simp
  then have "(''1'', ''1'') \<in> rowEdges selfParentListing"
    by (simp add: rowEdges_def)
  then show "\<not> acyclic (rowEdges selfParentListing)"
    by (auto simp: acyclic_def)
  have ch: "children (buildProcessTree selfParentListing) ''1'' = \<lparr>pid = ''1'', comm = ''bash''\<rparr> # []"
    by (simp add: children_buildProcessTree rows)
  have nt: "\<not> isTargetCommand (comm \<lparr>pid = ''1'', comm = ''bash''\<rparr>)"
    by (simp add: isTargetCommand_def)
  show none: "findTargetDescendant (buildProcessTree selfParentListing) ''1'' = None"
    using ch _ nt by (rule loop_self_parent) simp
  then show "findTargetChild selfParentListing ''1'' = None"
    by (simp add: findTargetChild_baseName)
qed

theorem findTargetChild_terminates_witness:
  "acyclic (rowEdges grandchildListing)
   \<and> (\<exists>r. findTargetChild grandchildListing ''14460'' = Some r)
   \<and> findTargetChild grandchildListing ''14460'' = Some ''codex''
   \<and> wf (treeEdges (buildProcessTree grandchildListing))
   \<and> (\<exists>r. findTargetDescendant (buildProcessTree grandchildListing) ''14460'' = Some r)"
proof -
  have rows: "psRows grandchildListing = [(''42545'', ''14460'', ''node''), (''42546'', ''42545'', ''codex'')]"
    by code_simp
  have "acyclic ({} :: (string \<times> string) set)"
    by (simp add: acyclic_def)
  then have a: "acyclic (rowEdges grandchildListing)"
    by (simp add: rowEdges_def rows rtrancl_insert)
  have w: "wf (treeEdges (buildProcessTree grandchildListing))"
    using a by (rule wf_rowEdges)
  have v: "findTargetChild grandchildListing ''14460'' = Some ''codex''"
    by code_simp
  show ?thesis
    using findTargetChild_terminates
        [of grandchildListing "''14460''" "buildProcessTree grandchildListing" "''14460''"]
      a w v
    by blast
qed

subsection \<open>The first match in depth-first order\<close>

text \<open>
  C1. \<^verbatim>\<open>findTargetDescendant\<close> returns the first target command of the depth-first
  order in which every child is visited before its own subtree and its subtree before its
  next sibling: if the first \<open>n\<close> processes visited hold a target, the first of them
  is returned; if the traversal ends within \<open>n\<close> visits and meets none, the empty string
  is returned; and whatever is returned is of one of these two kinds.
  \<^verbatim>\<open>findTargetChild\<close> returns the base name of that first target. Exchanging, in any
  lists of siblings, neighbours of which one has a subtree without target command leaves
  the result as it is, of \<^verbatim>\<open>findTargetDescendant\<close> on two trees and of
  \<^verbatim>\<open>findTargetChild\<close> on two listings.
\<close>

theorem findTargetDescendant_first_match:
  "(find isTargetCommand (dfsVisit n tree [children tree root]) = Some r \<longrightarrow>
      findTargetDescendant tree root = Some r)
   \<and> (length (dfsVisit n tree [children tree root]) < n
        \<and> find isTargetCommand (dfsVisit n tree [children tree root]) = None \<longrightarrow>
      findTargetDescendant tree root = Some '''')
   \<and> (findTargetDescendant tree root = Some r \<longrightarrow>
        (\<exists>k. (r \<noteq> '''' \<and> find isTargetCommand (dfsVisit k tree [children tree root]) = Some r)
           \<or> (r = '''' \<and> length (dfsVisit k tree [children tree root]) < k
               \<and> find isTargetCommand (dfsVisit k tree [children tree root]) = None)))
   \<and> (find isTargetCommand
         (dfsVisit n (buildProcessTree psOutput) [children (buildProcessTree psOutput) root])
         = Some r \<longrightarrow>
        findTargetChild psOutput root = Some (baseName r))
   \<and> ((\<forall>p. permuteFree tree (children tree p) (children tree' p)) \<longrightarrow>
        findTargetDescendant tree' root = findTargetDescendant tree root)
   \<and> ((\<forall>p. permuteFree (buildProcessTree psOutput)
              (children (buildProcessTree psOutput) p) (children (buildProcessTree psOutput') p)) \<longrightarrow>
        findTargetChild psOutput' root = findTargetChild psOutput root)"
proof (intro conjI impI)
  assume "find isTargetCommand (dfsVisit n tree [children tree root]) = Some r"
  then have "searchStack tree [children tree root] = Some r"
    by (rule dfsVisit_found)
  then show "findTargetDescendant tree root = Some r"
    unfolding searchStack_single findTargetDescendant_def .
next
  assume "length (dfsVisit n tree [children tree root]) < n
        \<and> find isTargetCommand (dfsVisit n tree [children tree root]) = None"
  then have "searchStack tree [children tree root] = Some ''''"
    using dfsVisit_exhausted [of n tree "[children tree root]"] by simp
  then show "findTargetDescendant tree root = Some ''''"
    unfolding searchStack_single findTargetDescendant_def .
next
  assume "findTargetDescendant tree root = Some r"
  then have l: "findTargetDescendant_loop tree (children tree root) = Some r"
    by (simp add: findTargetDescendant_def)
  note v = loop_visits [OF l]
  show "\<exists>k. (r \<noteq> '''' \<and> find isTargetCommand (dfsVisit k tree [children tree root]) = Some r)
           \<or> (r = '''' \<and> length (dfsVisit k tree [children tree root]) < k
               \<and> find isTargetCommand (dfsVisit k tree [children tree root]) = None)"
  proof (cases "r = []")
    case False
    with v obtain k where
      "find isTargetCommand (dfsVisit k tree [children tree root]) = Some r"
      by blast
    with False show ?thesis
      by blast
  next
    case True
    with v obtain vs where vs: "\<forall>x \<in> set vs. \<not> isTargetCommand x"
      "\<forall>stack n. dfsVisit (length vs + n) tree (children tree root # stack)
          = vs @ dfsVisit n tree stack"
      by blast
    have eq: "dfsVisit (Suc (length vs)) tree [children tree root] = vs"
      using vs(2) [rule_format, of 1 "[]"] by simp
    have "find isTargetCommand vs = None"
      using vs(1) by (simp add: find_None_iff)
    then have "r = '''' \<and> length (dfsVisit (Suc (length vs)) tree [children tree root]) < Suc (length vs)
        \<and> find isTargetCommand (dfsVisit (Suc (length vs)) tree [children tree root]) = None"
      using True by (simp add: eq)
    then show ?thesis
      by blast
  qed
next
  assume "find isTargetCommand
         (dfsVisit n (buildProcessTree psOutput) [children (buildProcessTree psOutput) root])
         = Some r"
  then have "searchStack (buildProcessTree psOutput) [children (buildProcessTree psOutput) root]
      = Some r"
    by (rule dfsVisit_found)
  then have "findTargetDescendant (buildProcessTree psOutput) root = Some r"
    unfolding searchStack_single findTargetDescendant_def .
  then show "findTargetChild psOutput root = Some (baseName r)"
    by (simp add: findTargetChild_baseName)
next
  assume "\<forall>p. permuteFree tree (children tree p) (children tree' p)"
  then show "findTargetDescendant tree' root = findTargetDescendant tree root"
    by (rule findTargetDescendant_permuted)
next
  assume "\<forall>p. permuteFree (buildProcessTree psOutput)
              (children (buildProcessTree psOutput) p) (children (buildProcessTree psOutput') p)"
  then have "findTargetDescendant (buildProcessTree psOutput') root
      = findTargetDescendant (buildProcessTree psOutput) root"
    by (rule findTargetDescendant_permuted)
  then show "findTargetChild psOutput' root = findTargetChild psOutput root"
    by (simp add: findTargetChild_baseName)
qed

theorem findTargetDescendant_first_match_witness:
  "find isTargetCommand (dfsVisit 4 shellFirstTree [children shellFirstTree ''1'']) = Some ''claude''
   \<and> findTargetDescendant shellFirstTree ''1'' = Some ''claude''
   \<and> length (dfsVisit 2 shellFirstTree [children shellFirstTree ''10'']) < 2
   \<and> find isTargetCommand (dfsVisit 2 shellFirstTree [children shellFirstTree ''10'']) = None
   \<and> findTargetDescendant shellFirstTree ''10'' = Some ''''
   \<and> (\<exists>k. find isTargetCommand (dfsVisit k shellFirstTree [children shellFirstTree ''1''])
          = Some ''claude'')
   \<and> find isTargetCommand
        (dfsVisit 2 (buildProcessTree grandchildListing)
           [children (buildProcessTree grandchildListing) ''14460'']) = Some ''codex''
   \<and> findTargetChild grandchildListing ''14460'' = Some (baseName ''codex'')
   \<and> targetFree 3 shellFirstTree bashEntry
   \<and> children shellFirstTree ''1'' = [bashEntry, nodeEntry]
   \<and> children nodeFirstTree ''1'' = [nodeEntry, bashEntry]
   \<and> findTargetDescendant nodeFirstTree ''1'' = findTargetDescendant shellFirstTree ''1''
   \<and> findTargetChild nodeFirstListing ''1'' = findTargetChild shellFirstListing ''1''
   \<and> findTargetChild shellFirstListing ''1'' = Some ''claude''"
proof -
  note T = findTargetDescendant_first_match
    [of 4 shellFirstTree "''1''" "''claude''" shellFirstListing nodeFirstTree nodeFirstListing]
  note U = findTargetDescendant_first_match
    [of 2 shellFirstTree "''10''" "''claude''" shellFirstListing nodeFirstTree nodeFirstListing]
  note V = findTargetDescendant_first_match
    [of 2 "buildProcessTree grandchildListing" "''14460''" "''codex''" grandchildListing
      nodeFirstTree nodeFirstListing]
  have a: "find isTargetCommand (dfsVisit 4 shellFirstTree [children shellFirstTree ''1''])
      = Some ''claude''"
    by code_simp
  have b: "length (dfsVisit 2 shellFirstTree [children shellFirstTree ''10'']) < 2
      \<and> find isTargetCommand (dfsVisit 2 shellFirstTree [children shellFirstTree ''10'']) = None"
    by code_simp
  have c: "find isTargetCommand
        (dfsVisit 2 (buildProcessTree grandchildListing)
           [children (buildProcessTree grandchildListing) ''14460'']) = Some ''codex''"
    by code_simp
  have f: "targetFree 3 shellFirstTree bashEntry"
    by code_simp
  have rows: "psRows shellFirstListing =
      [(''10'', ''1'', ''bash''), (''11'', ''10'', ''vim''), (''20'', ''1'', ''node''),
       (''21'', ''20'', ''claude'')]"
    "psRows nodeFirstListing =
      [(''20'', ''1'', ''node''), (''21'', ''20'', ''claude''), (''10'', ''1'', ''bash''),
       (''11'', ''10'', ''vim'')]"
    by code_simp+
  have ch: "children shellFirstTree ''1'' = [bashEntry, nodeEntry]"
    "children nodeFirstTree ''1'' = [nodeEntry, bashEntry]"
    by (simp_all add: shellFirstTree_def nodeFirstTree_def children_buildProcessTree rows
        bashEntry_def nodeEntry_def)
  have perm: "\<forall>p. permuteFree shellFirstTree (children shellFirstTree p) (children nodeFirstTree p)"
  proof
    fix p
    show "permuteFree shellFirstTree (children shellFirstTree p) (children nodeFirstTree p)"
    proof (cases "p = ''1''")
      case True
      have "permuteFree shellFirstTree ([] @ bashEntry # nodeEntry # []) ([] @ nodeEntry # bashEntry # [])"
        using f by (intro permuteFree.swap [of 3]) simp
      then show ?thesis
        using True ch by simp
    next
      case False
      then have "children shellFirstTree p = children nodeFirstTree p"
        by (auto simp: shellFirstTree_def nodeFirstTree_def children_buildProcessTree rows)
      then show ?thesis
        by (simp add: permuteFree.same)
    qed
  qed
  have perm': "\<forall>p. permuteFree (buildProcessTree shellFirstListing)
      (children (buildProcessTree shellFirstListing) p)
      (children (buildProcessTree nodeFirstListing) p)"
    using perm by (simp add: shellFirstTree_def nodeFirstTree_def)
  have r1: "findTargetDescendant shellFirstTree ''1'' = Some ''claude''"
    using T [THEN conjunct1, THEN mp, OF a] .
  have r2: "findTargetDescendant shellFirstTree ''10'' = Some ''''"
    using U [THEN conjunct2, THEN conjunct1, THEN mp, OF b] .
  have r3: "\<exists>k. find isTargetCommand (dfsVisit k shellFirstTree [children shellFirstTree ''1''])
      = Some ''claude''"
    using T [THEN conjunct2, THEN conjunct2, THEN conjunct1, THEN mp, OF r1] by auto
  have r4: "findTargetChild grandchildListing ''14460'' = Some (baseName ''codex'')"
    using V [THEN conjunct2, THEN conjunct2, THEN conjunct2, THEN conjunct1, THEN mp, OF c] .
  have r5: "findTargetDescendant nodeFirstTree ''1'' = findTargetDescendant shellFirstTree ''1''"
    using T [THEN conjunct2, THEN conjunct2, THEN conjunct2, THEN conjunct2, THEN conjunct1,
        THEN mp, OF perm] .
  have r6: "findTargetChild nodeFirstListing ''1'' = findTargetChild shellFirstListing ''1''"
    using T [THEN conjunct2, THEN conjunct2, THEN conjunct2, THEN conjunct2, THEN conjunct2,
        THEN mp, OF perm'] .
  have r7: "findTargetChild shellFirstListing ''1'' = Some ''claude''"
    by code_simp
  show ?thesis
    using a b c f ch r1 r2 r3 r4 r5 r6 r7 by blast
qed

subsection \<open>Descendants\<close>

lemma reaches_mono: "reaches tree cs e \<Longrightarrow> set cs \<subseteq> set cs' \<Longrightarrow> reaches tree cs' e"
  by (induction rule: reaches.induct) (auto intro: reaches.intros)

lemma reaches_children:
  "reaches tree (children tree (pid c)) e \<Longrightarrow> c \<in> set cs \<Longrightarrow> reaches tree cs e"
  by (induction rule: reaches.induct) (auto intro: reaches.intros)

lemma reaches_Cons:
  "reaches tree (c # rest) e \<longleftrightarrow>
   e = c \<or> reaches tree (children tree (pid c)) e \<or> reaches tree rest e"
proof
  assume "reaches tree (c # rest) e"
  then show "e = c \<or> reaches tree (children tree (pid c)) e \<or> reaches tree rest e"
  proof (induction rule: reaches.induct)
    case (start e)
    then show ?case
      by (auto intro: reaches.start)
  next
    case (down e e')
    then show ?case
      by (auto intro: reaches.intros)
  qed
next
  assume "e = c \<or> reaches tree (children tree (pid c)) e \<or> reaches tree rest e"
  then show "reaches tree (c # rest) e"
    using reaches_children [of tree c e "c # rest"] reaches_mono [of tree rest e "c # rest"]
    by (auto intro: reaches.start)
qed

lemma reaches_Nil [simp]: "\<not> reaches tree [] e"
proof
  assume "reaches tree [] e"
  then show False
    by (induction rule: reaches.induct) auto
qed

lemma loop_reaches:
  assumes "findTargetDescendant_loop tree cs = Some r"
  shows "(r = [] \<longrightarrow> (\<forall>e. reaches tree cs e \<longrightarrow> \<not> isTargetCommand (comm e)))
    \<and> (r \<noteq> [] \<longrightarrow> (\<exists>e. reaches tree cs e \<and> isTargetCommand (comm e) \<and> r = comm e))"
  using assms
proof (induction rule: findTargetDescendant_loop.raw_induct [rotated 1, consumes 1])
  case (1 loop tree cs r)
  show ?case
  proof (cases cs)
    case Nil
    with "1.hyps" show ?thesis by simp
  next
    case (Cons c rest)
    show ?thesis
    proof (cases "isTargetCommand (comm c)")
      case True
      with "1.hyps" Cons have "r = comm c" by simp
      moreover have "reaches tree (c # rest) c"
        by (simp add: reaches.start)
      ultimately show ?thesis
        using True isTargetCommand_nonempty [of "comm c"] unfolding Cons by auto
    next
      case False
      with "1.hyps" Cons obtain found where
        sub: "loop tree (children tree (pid c)) = Some found"
        and res: "(if found \<noteq> [] then Some found else loop tree rest) = Some r"
        by (auto simp: bind_eq_Some_conv)
      note IHsub = "1.IH" [OF sub]
      show ?thesis
      proof (cases "found = []")
        case fne: False
        with res have "r = found" by simp
        with IHsub fne show ?thesis
          unfolding Cons reaches_Cons by blast
      next
        case True
        with res have "loop tree rest = Some r" by simp
        note IHrest = "1.IH" [OF this]
        show ?thesis
          using IHsub IHrest True False unfolding Cons reaches_Cons by blast
      qed
    qed
  qed
qed

lemma descendant_row:
  assumes "descendant (buildProcessTree psOutput) root e"
  shows "\<exists>pp. (pid e, pp, comm e) \<in> set (psRows psOutput)"
proof -
  have "\<exists>q. e \<in> set (children (buildProcessTree psOutput) q)"
    using assms unfolding descendant_def by (induction rule: reaches.induct) auto
  then show ?thesis
    by (auto simp: children_buildProcessTree)
qed

lemma findTargetChild_total:
  assumes "acyclic (rowEdges psOutput)"
  obtains r where "findTargetDescendant (buildProcessTree psOutput) panePID = Some r"
    and "findTargetChild psOutput panePID = Some (baseName r)"
proof -
  have "wf (treeEdges (buildProcessTree psOutput))"
    using assms by (rule wf_rowEdges)
  then obtain r where "findTargetDescendant (buildProcessTree psOutput) panePID = Some r"
    using loop_total by (auto simp: findTargetDescendant_def)
  then show ?thesis
    using that by (simp add: findTargetChild_baseName)
qed

lemma baseName_Nil: "baseName [] = []"
  by (simp add: baseName_def)

text \<open>
  C7. \<^verbatim>\<open>isTargetCommand\<close> holds exactly when the base name of the command is
  \<^verbatim>\<open>claude\<close> or \<^verbatim>\<open>codex\<close>; \<^verbatim>\<open>node\<close> is no target, nor is a name that differs in
  case or only starts with a target name. On an acyclic listing, a pane process with no
  target among its descendants resolves to the empty string; with a target among them, at
  whatever depth, it resolves to the base name of a target descendant, which is the base
  name of that target when all target descendants share it, also when the command carries
  a path.
\<close>

theorem isTargetCommand_exact:
  "(isTargetCommand cmd \<longleftrightarrow> baseName cmd = ''claude'' \<or> baseName cmd = ''codex'')
   \<and> \<not> isTargetCommand ''node'' \<and> \<not> isTargetCommand ''Claude''
   \<and> \<not> isTargetCommand ''claude-code'' \<and> \<not> isTargetCommand ''codex/''
   \<and> (acyclic (rowEdges psOutput)
        \<and> (\<forall>d. descendant (buildProcessTree psOutput) panePID d \<longrightarrow> \<not> isTargetCommand (comm d))
        \<longrightarrow> findTargetChild psOutput panePID = Some '''')
   \<and> (acyclic (rowEdges psOutput) \<and> descendant (buildProcessTree psOutput) panePID e
        \<and> isTargetCommand (comm e) \<longrightarrow>
        (\<exists>d. descendant (buildProcessTree psOutput) panePID d \<and> isTargetCommand (comm d)
           \<and> findTargetChild psOutput panePID = Some (baseName (comm d))))
   \<and> (acyclic (rowEdges psOutput) \<and> descendant (buildProcessTree psOutput) panePID e
        \<and> isTargetCommand (comm e)
        \<and> (\<forall>d. descendant (buildProcessTree psOutput) panePID d \<and> isTargetCommand (comm d) \<longrightarrow>
              baseName (comm d) = baseName (comm e)) \<longrightarrow>
        findTargetChild psOutput panePID = Some (baseName (comm e)))
   \<and> findTargetChild nodeOnlyListing ''14460'' = Some ''''
   \<and> findTargetChild grandchildListing ''14460'' = Some ''codex''
   \<and> findTargetChild fullPathListing ''14460'' = Some ''codex''"
proof -
  let ?tree = "buildProcessTree psOutput"
  have names: "isTargetCommand cmd \<longleftrightarrow> baseName cmd = ''claude'' \<or> baseName cmd = ''codex''"
    by (rule isTargetCommand_baseName)
  have neg: "\<not> isTargetCommand ''node''" "\<not> isTargetCommand ''Claude''"
    "\<not> isTargetCommand ''claude-code''" "\<not> isTargetCommand ''codex/''"
    by (simp_all add: isTargetCommand_def)
  have none: "findTargetChild psOutput panePID = Some ''''"
    if ac: "acyclic (rowEdges psOutput)"
      and no: "\<forall>d. descendant ?tree panePID d \<longrightarrow> \<not> isTargetCommand (comm d)"
  proof -
    obtain r where r: "findTargetDescendant ?tree panePID = Some r"
      and c: "findTargetChild psOutput panePID = Some (baseName r)"
      using findTargetChild_total [OF ac] by blast
    have "r = []"
      using loop_reaches [of ?tree "children ?tree panePID" r] r no
      by (auto simp: findTargetDescendant_def descendant_def)
    with c show ?thesis
      by (simp add: baseName_Nil)
  qed
  have some: "\<exists>d. descendant ?tree panePID d \<and> isTargetCommand (comm d)
           \<and> findTargetChild psOutput panePID = Some (baseName (comm d))"
    if ac: "acyclic (rowEdges psOutput)" and de: "descendant ?tree panePID e"
      and ta: "isTargetCommand (comm e)"
  proof -
    obtain r where r: "findTargetDescendant ?tree panePID = Some r"
      and c: "findTargetChild psOutput panePID = Some (baseName r)"
      using findTargetChild_total [OF ac] by blast
    note lr = loop_reaches [of ?tree "children ?tree panePID" r]
    have "r \<noteq> []"
      using lr r de ta by (auto simp: findTargetDescendant_def descendant_def)
    then obtain d where "descendant ?tree panePID d" "isTargetCommand (comm d)" "r = comm d"
      using lr r by (auto simp: findTargetDescendant_def descendant_def)
    with c show ?thesis
      by blast
  qed
  have only: "findTargetChild psOutput panePID = Some (baseName (comm e))"
    if "acyclic (rowEdges psOutput)" and "descendant ?tree panePID e" and "isTargetCommand (comm e)"
      and "\<forall>d. descendant ?tree panePID d \<and> isTargetCommand (comm d) \<longrightarrow>
              baseName (comm d) = baseName (comm e)"
    using some [OF that(1,2,3)] that(4) by auto
  have ex: "findTargetChild nodeOnlyListing ''14460'' = Some ''''"
    "findTargetChild grandchildListing ''14460'' = Some ''codex''"
    "findTargetChild fullPathListing ''14460'' = Some ''codex''"
    by code_simp+
  show ?thesis
    using names neg none some only ex by blast
qed

theorem isTargetCommand_exact_witness:
  "acyclic (rowEdges nodeOnlyListing)
   \<and> findTargetChild nodeOnlyListing ''14460'' = Some ''''
   \<and> acyclic (rowEdges grandchildListing)
   \<and> descendant (buildProcessTree grandchildListing) ''14460'' \<lparr>pid = ''42546'', comm = ''codex''\<rparr>
   \<and> isTargetCommand (comm \<lparr>pid = ''42546'', comm = ''codex''\<rparr>)
   \<and> findTargetChild grandchildListing ''14460''
       = Some (baseName (comm \<lparr>pid = ''42546'', comm = ''codex''\<rparr>))
   \<and> isTargetCommand ''/usr/local/bin/claude''
   \<and> baseName ''/usr/local/bin/claude'' = ''claude''"
proof -
  let ?node = "\<lparr>pid = ''42545'', comm = ''node''\<rparr>"
  let ?codex = "\<lparr>pid = ''42546'', comm = ''codex''\<rparr>"
  let ?tree = "buildProcessTree grandchildListing"
  have empty: "acyclic ({} :: (string \<times> string) set)"
    by (simp add: acyclic_def)
  have rows1: "psRows nodeOnlyListing = [(''16174'', ''14460'', ''node'')]"
    and rows2: "psRows grandchildListing =
      [(''42545'', ''14460'', ''node''), (''42546'', ''42545'', ''codex'')]"
    by code_simp+
  have a1: "acyclic (rowEdges nodeOnlyListing)"
    using empty by (simp add: rowEdges_def rows1)
  have a2: "acyclic (rowEdges grandchildListing)"
    using empty by (simp add: rowEdges_def rows2 rtrancl_insert)
  have t: "isTargetCommand (comm ?codex)" "\<not> isTargetCommand ''node''"
    by (simp_all add: isTargetCommand_def)
  have no: "\<forall>d. descendant (buildProcessTree nodeOnlyListing) ''14460'' d \<longrightarrow>
      \<not> isTargetCommand (comm d)"
    using descendant_row [of nodeOnlyListing "''14460''"] t(2) by (auto simp: rows1)
  have ch: "children ?tree ''14460'' = [?node]" "children ?tree ''42545'' = [?codex]"
    by (simp_all add: children_buildProcessTree rows2)
  have "reaches ?tree (children ?tree ''14460'') ?node"
    by (simp add: ch reaches.start)
  then have "reaches ?tree (children ?tree ''14460'') ?codex"
    by (rule reaches.down) (simp add: ch)
  then have de: "descendant ?tree ''14460'' ?codex"
    by (simp add: descendant_def)
  have only: "\<forall>d. descendant ?tree ''14460'' d \<and> isTargetCommand (comm d) \<longrightarrow>
      baseName (comm d) = baseName (comm ?codex)"
  proof (intro allI impI)
    fix d
    assume h: "descendant ?tree ''14460'' d \<and> isTargetCommand (comm d)"
    then obtain pp where "(pid d, pp, comm d) \<in> set (psRows grandchildListing)"
      using descendant_row by blast
    then have "comm d = ''node'' \<or> comm d = ''codex''"
      by (auto simp: rows2)
    with h t(2) show "baseName (comm d) = baseName (comm ?codex)"
      by auto
  qed
  note T = isTargetCommand_exact [of "''/usr/local/bin/claude''" nodeOnlyListing "''14460''" ?codex]
  note U = isTargetCommand_exact [of "''/usr/local/bin/claude''" grandchildListing "''14460''" ?codex]
  have b: "baseName ''/usr/local/bin/claude'' = ''claude''"
    by code_simp
  have r1: "findTargetChild nodeOnlyListing ''14460'' = Some ''''"
    using T a1 no by blast
  have r2: "findTargetChild grandchildListing ''14460'' = Some (baseName (comm ?codex))"
    using U a2 de t(1) only by blast
  have r3: "isTargetCommand ''/usr/local/bin/claude''"
    using T b by blast
  show ?thesis
    using a1 a2 de t(1) r1 r2 r3 b by blast
qed

end
